theory Spec2Isabelle
  imports Main "HOL-Library.Extended_Nat" "HOL-Library.Multiset"
begin

section \<open>Robin: overload resolution in \<open>reflection/overloadedset.cc\<close>\<close>

subsection \<open>Data model\<close>

text \<open>
  A scripting element is an opaque handle of the scripting host; a
  \<open>Handle<TypeOfArgument>\<close> is compared by address only, so a type is its address.
\<close>

type_synonym scripting_element = nat
type_synonym TypeOfArgument = nat

text \<open>
  Modelled from the spec: \<open>Insight\<close> (insight.h is not part of the sources at hand) is a
  totally ordered, equality-comparable tag attached to each actual argument.
\<close>

type_synonym Insight = int

text \<open>
  Modelled from the spec: \<open>Conversion::Weight\<close> (conversion.h is not part of the sources at
  hand) is a total order with \<open>INFINITE\<close> as its maximum, and a weight is possible
  iff it is below \<open>INFINITE\<close>. Weights are therefore any type \<open>'w\<close> of the sort
  \<open>{linorder, order_top}\<close>.
\<close>

definition INFINITE :: "'w::{linorder,order_top}" where
  "INFINITE = top"

definition isPossible :: "'w::{linorder,order_top} \<Rightarrow> bool" where
  "isPossible w = (w < INFINITE)"

text \<open>
  Modelled from the spec: a \<open>ConversionRoute\<close> has a total weight that depends on the
  insight of the value, and applying it to a value yields the converted value together with
  the transient values it hands to the garbage collection of the call.
\<close>

record 'w ConversionRoute =
  totalWeight :: "Insight \<Rightarrow> 'w"
  applyRoute :: "scripting_element \<Rightarrow> scripting_element \<times> scripting_element list"

text \<open>
  A \<open>CFunction\<close>: formal signature, return type and the native callable, which either
  raises (\<open>Inl\<close>, with the identity of what was raised) or returns a scripting element.
\<close>

record CFunction =
  signature :: "TypeOfArgument list"
  returnType :: TypeOfArgument
  callNative :: "scripting_element list \<Rightarrow> nat + scripting_element"

text \<open>The set: its address (\<open>this\<close>, the group of a cache key) and \<open>m_alternatives\<close>.\<close>

record OverloadedSet =
  this_set :: nat
  m_alternatives :: "CFunction list"

datatype overloading_relationship = OL_BETTER | OL_WORSE | OL_EQUIVALENT | OL_AMBIGUOUS

text \<open>
  What a call can end with other than a result. The first three are the exceptions of
  overloadedset.cc; \<open>NoApplicableConversion\<close> is raised by \<open>bestSequenceRoute\<close>;
  \<open>NativeException\<close> is whatever the native callable raised. \<open>AssertionFailure\<close> is a failed
  \<open>assert\<close>, and \<open>InvalidAccess\<close> stands for the undefined behaviour of dereferencing a null
  handle or of reading a vector out of range.
\<close>

datatype call_error =
    ArgumentArrayLimitExceeded
  | OverloadingNoMatch
  | OverloadingAmbiguity
  | NoApplicableConversion
  | NativeException nat
  | AssertionFailure
  | InvalidAccess

definition ARGUMENT_ARRAY_LIMIT :: nat where
  "ARGUMENT_ARRAY_LIMIT = 12"

subsection \<open>The resolution cache\<close>

record Key =
  group :: nat
  nargs :: nat
  args :: "TypeOfArgument list"
  insights :: "Insight list"

text \<open>
  Modelled from the spec: \<open>Pattern::Cache\<close> (pattern/cache.h is not part of the sources at
  hand) is a mapping from keys to candidate indices; \<open>recall\<close> of a key with no entry
  gives the sentinel \<open>MISSED\<close>, which is \<open>None\<close> here. \<open>remember\<close> stores clones of the
  two arrays, so a stored key does not alias the caller's buffers: keys are values.
  \<open>KeyIdentityFunctor\<close> compares the group, the number of arguments and, position by
  position, the addresses of the types and the insights; the keys that \<open>call\<close> builds hold
  exactly \<open>nargs\<close> types and insights, so this is the equality of the records.
\<close>

type_synonym Cache = "Key \<rightharpoonup> nat"

definition MISSED :: nat where
  "MISSED = 4294967287"

definition remember :: "Cache \<Rightarrow> nat \<Rightarrow> nat \<Rightarrow> TypeOfArgument list \<Rightarrow> Insight list \<Rightarrow> nat \<Rightarrow> Cache" where
  "remember cache me n as is chosenAlternative =
     cache(\<lparr>group = me, nargs = n, args = as, insights = is\<rparr> \<mapsto> chosenAlternative)"

definition recall :: "Cache \<Rightarrow> nat \<Rightarrow> nat \<Rightarrow> TypeOfArgument list \<Rightarrow> Insight list \<Rightarrow> nat option" where
  "recall cache me n as is = cache \<lparr>group = me, nargs = n, args = as, insights = is\<rparr>"

subsection \<open>The collaborators of a call\<close>

text \<open>
  The active frontend (\<open>detectType\<close>, \<open>detectInsight\<close>) and the conversion table. Modelled
  from the spec: \<open>bestSingleRoute\<close> is the table's answer for one position (the cheapest route
  from an actual type, under an insight, to a formal type, or none), and
  \<open>getEdgeConversion\<close> is the optional conversion of a returned value.
\<close>

record 'w Environment =
  detectType :: "scripting_element \<Rightarrow> TypeOfArgument"
  detectInsight :: "scripting_element \<Rightarrow> Insight"
  bestSingleRoute :: "TypeOfArgument \<Rightarrow> Insight \<Rightarrow> TypeOfArgument \<Rightarrow> 'w ConversionRoute option"
  getEdgeConversion :: "TypeOfArgument \<Rightarrow> (scripting_element \<Rightarrow> scripting_element) option"

text \<open>
  Modelled from the spec: \<open>bestSequenceRoute\<close> (conversiontable.cc is not part of the sources
  at hand) finds the route of each position independently and raises
  \<open>NoApplicableConversionException\<close> (\<open>None\<close>) when a position has no route.
\<close>

fun bestSequenceRoute ::
  "(TypeOfArgument \<Rightarrow> Insight \<Rightarrow> TypeOfArgument \<Rightarrow> 'w ConversionRoute option) \<Rightarrow>
   TypeOfArgument list \<Rightarrow> Insight list \<Rightarrow> TypeOfArgument list \<Rightarrow> 'w ConversionRoute list option" where
  "bestSequenceRoute tbl [] [] [] = Some []"
| "bestSequenceRoute tbl (t # ts) (i # is) (f # fs) =
     (case tbl t i f of
        None \<Rightarrow> None
      | Some r \<Rightarrow> (case bestSequenceRoute tbl ts is fs of
                    None \<Rightarrow> None
                  | Some rs \<Rightarrow> Some (r # rs)))"
| "bestSequenceRoute tbl _ _ _ = None"

text \<open>
  What a call does to the world outside, in order: the frontend detections, the cache
  operations, the queries to the conversion table (by the signature asked for), the
  transient values handed to the garbage collection, the native invocation, and the
  releases (\<open>SinkRelease\<close> by the garbage collection, \<open>MemoryRelease\<close> by
  \<open>applyEdgeConversions\<close>).
\<close>

datatype event =
    DetectType scripting_element
  | DetectInsight scripting_element
  | CacheRecall "nat option"
  | CacheRemember nat
  | BestSequenceRoute "TypeOfArgument list"
  | Trash scripting_element
  | Invoke CFunction "scripting_element list"
  | SinkRelease scripting_element
  | MemoryRelease scripting_element

subsection \<open>The helpers of the anonymous namespace\<close>

text \<open>
  The loop of \<open>compareAlternatives\<close> (vector version): the pair is
  \<open>(worse_witness, better_witness)\<close>.
\<close>

fun compare_loop ::
  "'w::linorder list \<Rightarrow> 'w ConversionRoute list \<Rightarrow> Insight list \<Rightarrow> bool \<times> bool \<Rightarrow> bool \<times> bool" where
  "compare_loop (k # known) (s # suggested) (i # is) (worse_witness, better_witness) =
     (let suggested_weight = totalWeight s i in
      if k < suggested_weight then compare_loop known suggested is (True, better_witness)
      else if suggested_weight < k then compare_loop known suggested is (worse_witness, True)
      else compare_loop known suggested is (worse_witness, better_witness))"
| "compare_loop _ _ _ w = w"

text \<open>
  \<open>compareAlternatives\<close>: the \<open>assert\<close> on the two sizes, the zero-size shortcut, the loop
  and the verdict. The loop advances the insight iterator without testing it, so a list of
  insights shorter than the other two is read past its end.
\<close>

definition compareAlternatives ::
  "'w::linorder list \<Rightarrow> 'w ConversionRoute list \<Rightarrow> Insight list \<Rightarrow> call_error + overloading_relationship" where
  "compareAlternatives known suggested is =
     (if length known \<noteq> length suggested then Inl AssertionFailure
      else if length known = 0 then Inr OL_BETTER
      else if length is < length known then Inl InvalidAccess
      else (case compare_loop known suggested is (False, False) of
              (worse_witness, better_witness) \<Rightarrow>
                if worse_witness \<noteq> better_witness
                then Inr (if better_witness then OL_BETTER else OL_WORSE)
                else Inr (if better_witness then OL_AMBIGUOUS else OL_EQUIVALENT)))"

fun identical_loop :: "TypeOfArgument list \<Rightarrow> TypeOfArgument list \<Rightarrow> bool" where
  "identical_loop (arg1 # args1) (arg2 # args2) =
     (if arg1 \<noteq> arg2 then False else identical_loop args1 args2)"
| "identical_loop _ _ = True"

definition identicalAlternatives :: "CFunction \<Rightarrow> CFunction \<Rightarrow> bool" where
  "identicalAlternatives alt1 alt2 =
     (if length (signature alt1) \<noteq> length (signature alt2) then False
      else identical_loop (signature alt1) (signature alt2))"

text \<open>
  \<open>rememberWeights\<close> (vector version): the weight of each route under its insight. The
  source indexes the insights by the positions of the routes; at its one call site the two
  vectors have the same length.
\<close>

definition rememberWeights :: "'w ConversionRoute list \<Rightarrow> Insight list \<Rightarrow> 'w list" where
  "rememberWeights list is = map (\<lambda>(r, i). totalWeight r i) (zip list is)"

fun conversionPossible :: "'w::{linorder,order_top} list \<Rightarrow> bool" where
  "conversionPossible [] = True"
| "conversionPossible (w # weights) = (if \<not> isPossible w then False else conversionPossible weights)"

text \<open>
  \<open>convertSequence\<close> (vector version). The routes are handles, null (\<open>None\<close>) until
  assigned. The result is the converted arguments and the bin of the garbage collection,
  to which each route has added its transient values.
\<close>

fun convert_loop ::
  "scripting_element list \<Rightarrow> 'w ConversionRoute option list \<Rightarrow> scripting_element list \<Rightarrow>
   call_error + scripting_element list \<times> scripting_element list" where
  "convert_loop (a # original) (c # conversions) gc =
     (case c of
        None \<Rightarrow> Inl InvalidAccess
      | Some r \<Rightarrow> (case applyRoute r a of (v, garbage) \<Rightarrow>
          (case convert_loop original conversions (gc @ garbage) of
             Inl e \<Rightarrow> Inl e
           | Inr (converted, gc') \<Rightarrow> Inr (v # converted, gc'))))"
| "convert_loop _ _ gc = Inr ([], gc)"

definition convertSequence ::
  "scripting_element list \<Rightarrow> 'w ConversionRoute option list \<Rightarrow> scripting_element list \<Rightarrow>
   call_error + scripting_element list \<times> scripting_element list" where
  "convertSequence original conversions gc =
     (if length original \<noteq> length conversions then Inl AssertionFailure
      else convert_loop original conversions gc)"

subsection \<open>\<open>OverloadedSet::call\<close>\<close>

text \<open>
  The variables of the resolution loop: \<open>ambiguity_alert\<close>, \<open>lightest\<close> (a handle, null
  until a champion is adopted), \<open>cached_alt\<close>, \<open>lightroutes\<close> (handles, null at first),
  \<open>lightweight\<close>, and the queries sent to the conversion table so far.
\<close>

record 'w Selection =
  ambiguity_alert :: bool
  lightest :: "CFunction option"
  cached_alt :: nat
  lightroutes :: "'w ConversionRoute option list"
  lightweight :: "'w list"
  queries :: "event list"

text \<open>
  The state before the loop: \<open>lightweight\<close> is \<open>n\<close> times \<open>INFINITE\<close>; \<open>cached_alt\<close> still
  holds what \<open>recall\<close> returned, the sentinel \<open>MISSED\<close>.
\<close>

definition initial :: "nat \<Rightarrow> ('w::{linorder,order_top}) Selection" where
  "initial n =
     \<lparr>ambiguity_alert = False, lightest = None, cached_alt = MISSED,
      lightroutes = replicate n None, lightweight = replicate n INFINITE, queries = []\<rparr>"

text \<open>
  The body of the loop for the alternative at position \<open>index\<close>. A
  \<open>NoApplicableConversionException\<close> is caught and the alternative passed over. In the
  cases \<open>OL_EQUIVALENT\<close> and \<open>OL_AMBIGUOUS\<close>, \<open>identicalAlternatives\<close> dereferences
  \<open>lightest\<close>.
\<close>

definition examine ::
  "('w::{linorder,order_top}) Environment \<Rightarrow> nat \<Rightarrow> TypeOfArgument list \<Rightarrow> Insight list \<Rightarrow>
   CFunction \<Rightarrow> nat \<Rightarrow> 'w Selection \<Rightarrow> call_error + 'w Selection" where
  "examine env n actual_types actual_insights alt index st =
     (if length (signature alt) = n then
        (let st = st\<lparr>queries := queries st @ [BestSequenceRoute (signature alt)]\<rparr> in
         case bestSequenceRoute (bestSingleRoute env) actual_types actual_insights (signature alt) of
           None \<Rightarrow> Inr st
         | Some needed \<Rightarrow>
             (case compareAlternatives (lightweight st) needed actual_insights of
                Inl e \<Rightarrow> Inl e
              | Inr OL_BETTER \<Rightarrow>
                  Inr (st\<lparr>lightest := Some alt, cached_alt := index,
                          lightroutes := map Some (take n needed) @ drop n (lightroutes st),
                          lightweight := rememberWeights needed actual_insights,
                          ambiguity_alert := False\<rparr>)
              | Inr OL_WORSE \<Rightarrow> Inr st
              | Inr _ \<Rightarrow>
                  (case lightest st of
                     None \<Rightarrow> Inl InvalidAccess
                   | Some champion \<Rightarrow>
                       if \<not> identicalAlternatives champion alt
                       then Inr (st\<lparr>ambiguity_alert := True\<rparr>)
                       else Inr st)))
      else Inr st)"

fun tournament ::
  "('w::{linorder,order_top}) Environment \<Rightarrow> nat \<Rightarrow> TypeOfArgument list \<Rightarrow> Insight list \<Rightarrow>
   CFunction list \<Rightarrow> nat \<Rightarrow> 'w Selection \<Rightarrow> call_error + 'w Selection" where
  "tournament env n actual_types actual_insights [] index st = Inr st"
| "tournament env n actual_types actual_insights (alt # alts) index st =
     (case examine env n actual_types actual_insights alt index st of
        Inl e \<Rightarrow> Inl e
      | Inr st' \<Rightarrow> tournament env n actual_types actual_insights alts (Suc index) st')"

text \<open>The test after the loop: the exception to throw, if any.\<close>

definition verdict :: "('w::{linorder,order_top}) Selection \<Rightarrow> call_error option" where
  "verdict st =
     (if \<not> conversionPossible (lightweight st) \<or> lightest st = None then Some OverloadingNoMatch
      else if ambiguity_alert st then Some OverloadingAmbiguity
      else None)"

definition detect_events :: "scripting_element list \<Rightarrow> event list" where
  "detect_events actual = concat (map (\<lambda>a. [DetectType a, DetectInsight a]) actual)"

text \<open>
  The first half of \<open>call\<close> after the detection of types and insights: the cache is asked;
  on a hit the cached alternative is taken and its routes computed (an exception of
  \<open>bestSequenceRoute\<close> is not caught here); on a miss the loop runs, and a winner is stored
  in the cache. The result is the outcome (an error, or \<open>match\<close> with the converted
  arguments and the bin of the garbage collection), the cache, and the events.
\<close>

definition locate ::
  "('w::{linorder,order_top}) Environment \<Rightarrow> OverloadedSet \<Rightarrow> Cache \<Rightarrow> scripting_element list \<Rightarrow>
   (call_error + CFunction option \<times> scripting_element list \<times> scripting_element list)
   \<times> Cache \<times> event list" where
  "locate env S cache actual =
     (let n = length actual;
          actual_types = map (detectType env) actual;
          actual_insights = map (detectInsight env) actual
      in case recall cache (this_set S) n actual_types actual_insights of
        Some cached \<Rightarrow>
          (if cached < length (m_alternatives S) then
             (let match = m_alternatives S ! cached;
                  ev = [CacheRecall (Some cached), BestSequenceRoute (signature match)]
              in case bestSequenceRoute (bestSingleRoute env) actual_types actual_insights
                        (signature match) of
                None \<Rightarrow> (Inl NoApplicableConversion, cache, ev)
              | Some needed \<Rightarrow>
                  (case convertSequence actual (map Some needed) [] of
                     Inl e \<Rightarrow> (Inl e, cache, ev)
                   | Inr (converted, gc) \<Rightarrow>
                       (Inr (Some match, converted, gc), cache, ev @ map Trash gc)))
           else (Inl InvalidAccess, cache, [CacheRecall (Some cached)]))
      | None \<Rightarrow>
          (case tournament env n actual_types actual_insights (m_alternatives S) 0 (initial n) of
             Inl e \<Rightarrow> (Inl e, cache, [CacheRecall None])
           | Inr st \<Rightarrow>
               (case verdict st of
                  Some e \<Rightarrow> (Inl e, cache, CacheRecall None # queries st)
                | None \<Rightarrow>
                    (let cache' = remember cache (this_set S) n actual_types actual_insights
                                    (cached_alt st);
                         ev = CacheRecall None # queries st @ [CacheRemember (cached_alt st)]
                     in case convertSequence actual (lightroutes st) [] of
                       Inl e \<Rightarrow> (Inl e, cache', ev)
                     | Inr (converted, gc) \<Rightarrow>
                         (Inr (lightest st, converted, gc), cache', ev @ map Trash gc)))))"

definition applyEdgeConversions ::
  "'w Environment \<Rightarrow> TypeOfArgument \<Rightarrow> scripting_element \<Rightarrow> scripting_element \<times> event list" where
  "applyEdgeConversions env type val =
     (case getEdgeConversion env type of
        None \<Rightarrow> (val, [])
      | Some exit \<Rightarrow> (exit val, [MemoryRelease val]))"

text \<open>
  Modelled from the spec: \<open>GarbageCollection\<close> (memorymanager.h is not part of the sources
  at hand) is a bag of the transient values of one call; \<open>cleanUp\<close> releases what the bin
  holds and leaves it empty, and the bin is cleaned up when its scope is left, whatever the
  outcome.
\<close>

definition cleanUp :: "scripting_element list \<Rightarrow> scripting_element list \<times> event list" where
  "cleanUp gc = ([], map SinkRelease gc)"

text \<open>
  The second half of \<open>call\<close>: the native call, the edge conversion of the result, and the
  explicit \<open>gc.cleanUp()\<close>. The result is the outcome, the events and the bin as it is when
  the scope is left.
\<close>

definition invoke ::
  "'w Environment \<Rightarrow> CFunction option \<Rightarrow> scripting_element list \<Rightarrow> scripting_element list \<Rightarrow>
   (call_error + scripting_element) \<times> event list \<times> scripting_element list" where
  "invoke env match converted_args gc =
     (case match of
        None \<Rightarrow> (Inl OverloadingNoMatch, [], gc)
      | Some m \<Rightarrow>
          (case callNative m converted_args of
             Inl raised \<Rightarrow> (Inl (NativeException raised), [Invoke m converted_args], gc)
           | Inr result \<Rightarrow>
               (case applyEdgeConversions env (returnType m) result of (result', ev) \<Rightarrow>
                  (case cleanUp gc of (gc', released) \<Rightarrow>
                     (Inr result', Invoke m converted_args # ev @ released, gc')))))"

record CallResult =
  outcome :: "call_error + scripting_element"
  cache_after :: Cache
  trace :: "event list"

text \<open>
  \<open>OverloadedSet::call\<close>. The garbage collection \<open>gc\<close> is a local of the function,
  declared before the test of the array limit; it is empty whenever an exception of the
  first half leaves the function, and what it holds when the second half is left is
  cleaned up at the end of its scope.
\<close>

definition call ::
  "('w::{linorder,order_top}) Environment \<Rightarrow> OverloadedSet \<Rightarrow> Cache \<Rightarrow> scripting_element list \<Rightarrow>
   CallResult" where
  "call env S cache actual =
     (if length actual > ARGUMENT_ARRAY_LIMIT
      then \<lparr>outcome = Inl ArgumentArrayLimitExceeded, cache_after = cache, trace = []\<rparr>
      else (case locate env S cache actual of
              (Inl e, cache', ev) \<Rightarrow>
                \<lparr>outcome = Inl e, cache_after = cache', trace = detect_events actual @ ev\<rparr>
            | (Inr (match, converted_args, gc), cache', ev) \<Rightarrow>
                (case invoke env match converted_args gc of (result, ev', gc') \<Rightarrow>
                   \<lparr>outcome = result, cache_after = cache',
                    trace = detect_events actual @ ev @ ev' @ snd (cleanUp gc')\<rparr>)))"

text \<open>
  A cache is consistent with a set when each of its entries for the set is the index that
  the resolution of the set gives for the types and insights of the entry: the entries
  that \<open>call\<close> itself stores.
\<close>

definition cache_consistent ::
  "('w::{linorder,order_top}) Environment \<Rightarrow> OverloadedSet \<Rightarrow> Cache \<Rightarrow> bool" where
  "cache_consistent env S cache =
     (\<forall>ts is idx. recall cache (this_set S) (length ts) ts is = Some idx \<longrightarrow>
        (\<exists>st. tournament env (length ts) ts is (m_alternatives S) 0 (initial (length ts)) = Inr st
              \<and> verdict st = None \<and> cached_alt st = idx))"

text \<open>The functions invoked, and the values trashed and released, in a trace.\<close>

fun invoked :: "event list \<Rightarrow> CFunction list" where
  "invoked [] = []"
| "invoked (Invoke f as # es) = f # invoked es"
| "invoked (_ # es) = invoked es"

fun trashed :: "event list \<Rightarrow> scripting_element list" where
  "trashed [] = []"
| "trashed (Trash v # es) = v # trashed es"
| "trashed (_ # es) = trashed es"

fun released :: "event list \<Rightarrow> scripting_element list" where
  "released [] = []"
| "released (SinkRelease v # es) = v # released es"
| "released (_ # es) = released es"

fun table_queries :: "event list \<Rightarrow> TypeOfArgument list list" where
  "table_queries [] = []"
| "table_queries (BestSequenceRoute sig # es) = sig # table_queries es"
| "table_queries (_ # es) = table_queries es"

definition routes_possible :: "('w::{linorder,order_top}) Environment \<Rightarrow> bool" where
  "routes_possible env =
     (\<forall>t i f r. bestSingleRoute env t i f = Some r \<longrightarrow> isPossible (totalWeight r i))"

text \<open>
  The invariant of the resolution loop, for the alternatives \<open>seen\<close> so far: the two
  vectors have the length of the call; while no champion has been adopted the weights are
  all \<open>INFINITE\<close>; once one has, \<open>cached_alt\<close> is its position, and \<open>lightroutes\<close> and
  \<open>lightweight\<close> are its routes and their weights.
\<close>

definition champion_ok ::
  "('w::{linorder,order_top}) Environment \<Rightarrow> nat \<Rightarrow> TypeOfArgument list \<Rightarrow> Insight list \<Rightarrow>
   CFunction list \<Rightarrow> 'w Selection \<Rightarrow> bool" where
  "champion_ok env n ts is seen st =
     (length (lightroutes st) = n \<and> length (lightweight st) = n \<and>
      (case lightest st of
         None \<Rightarrow> lightweight st = replicate n INFINITE
       | Some c \<Rightarrow>
           cached_alt st < length seen \<and> seen ! cached_alt st = c \<and> length (signature c) = n \<and>
           (\<exists>needed. bestSequenceRoute (bestSingleRoute env) ts is (signature c) = Some needed
                     \<and> lightroutes st = map Some needed
                     \<and> lightweight st = rememberWeights needed is)))"

text \<open>
  The weights of an alternative for given types and insights of the actual arguments:
  those of the routes that \<open>bestSequenceRoute\<close> finds for its signature, if it finds them.
\<close>

definition candidate_weights ::
  "'w Environment \<Rightarrow> TypeOfArgument list \<Rightarrow> Insight list \<Rightarrow> CFunction \<Rightarrow> 'w list option" where
  "candidate_weights env ts is alt =
     map_option (\<lambda>needed. rememberWeights needed is)
       (bestSequenceRoute (bestSingleRoute env) ts is (signature alt))"

text \<open>
  One vector of weights is lighter than another when it is no heavier at any position and
  strictly lighter at some position. An alternative dominates another when both have routes
  for the actual arguments and the weights of the first are lighter than those of the
  second.
\<close>

definition lighter :: "'w::linorder list \<Rightarrow> 'w list \<Rightarrow> bool" where
  "lighter a b =
     (length a = length b \<and> (\<forall>p<length a. a ! p \<le> b ! p) \<and> (\<exists>p<length a. a ! p < b ! p))"

definition dominates ::
  "('w::linorder) Environment \<Rightarrow> TypeOfArgument list \<Rightarrow> Insight list \<Rightarrow>
   CFunction \<Rightarrow> CFunction \<Rightarrow> bool" where
  "dominates env ts is X Y =
     (case candidate_weights env ts is X of
        None \<Rightarrow> False
      | Some wX \<Rightarrow> (case candidate_weights env ts is Y of
                      None \<Rightarrow> False
                    | Some wY \<Rightarrow> lighter wX wY))"

text \<open>
  What the resolution loop has settled about its champion when it has examined the
  alternatives \<open>seen\<close>. While there is no champion, none of them has routes. Afterwards
  the weights kept are those of the champion and none of the alternatives seen dominates
  it; unless the ambiguity flag is set, every alternative examined after the champion is
  without routes, dominated by the champion or identical to it; and if an alternative with
  routes was examined before the champion, then the champion dominates one of those
  examined before it that none of them dominates (the champion it replaced).
\<close>

definition settled ::
  "('w::{linorder,order_top}) Environment \<Rightarrow> TypeOfArgument list \<Rightarrow> Insight list \<Rightarrow>
   CFunction list \<Rightarrow> 'w Selection \<Rightarrow> bool" where
  "settled env ts is seen st =
     (case lightest st of
        None \<Rightarrow> (\<forall>X\<in>set seen. candidate_weights env ts is X = None)
      | Some c \<Rightarrow>
          candidate_weights env ts is c = Some (lightweight st) \<and>
          (\<forall>X\<in>set seen. \<not> dominates env ts is X c) \<and>
          (\<exists>pre post. seen = pre @ c # post \<and>
             (ambiguity_alert st \<or>
              (\<forall>X\<in>set post. candidate_weights env ts is X = None \<or> dominates env ts is c X
                              \<or> identicalAlternatives c X)) \<and>
             ((\<forall>X\<in>set pre. candidate_weights env ts is X = None) \<or>
              (\<exists>L\<in>set pre. dominates env ts is c L
                             \<and> (\<forall>X\<in>set pre. \<not> dominates env ts is X L)))))"


subsection \<open>An example world\<close>

text \<open>
  A small world on which the theorems below are exercised. The types are Int (1),
  Double (2), String (3), Float (4), List (7) and IntVector (8). A scripting value below
  100 is an Int; any other value is a List, whose insight is 1 when it holds integers and 0
  otherwise. An Int converts to itself at weight 0 and to Double or Float at weight 1; a
  List converts to an IntVector by a route whose weight is 1 under the insight 1 and
  \<open>INFINITE\<close> under any other. Values returned as Double pass through an edge conversion.
\<close>

definition exact_route :: "enat ConversionRoute" where
  "exact_route = \<lparr>totalWeight = \<lambda>i. 0, applyRoute = \<lambda>v. (v, [])\<rparr>"

definition promote_route :: "enat ConversionRoute" where
  "promote_route = \<lparr>totalWeight = \<lambda>i. 1, applyRoute = \<lambda>v. (v + 1000, [v + 1000])\<rparr>"

definition vector_route :: "enat ConversionRoute" where
  "vector_route =
     \<lparr>totalWeight = \<lambda>i. if i = 1 then 1 else \<infinity>, applyRoute = \<lambda>v. (v + 2000, [v + 2000])\<rparr>"

definition example_env :: "enat Environment" where
  "example_env =
     \<lparr>detectType = \<lambda>v. if v < 100 then 1 else 7,
      detectInsight = \<lambda>v. if v < 100 then 0 else int (v mod 2),
      bestSingleRoute = \<lambda>t i f.
        if t = f then Some exact_route
        else if t = 1 \<and> (f = 2 \<or> f = 4) then Some promote_route
        else if t = 7 \<and> f = 8 then Some vector_route
        else None,
      getEdgeConversion = \<lambda>t. if t = 2 then Some (\<lambda>v. v + 1) else None\<rparr>"

definition f_int :: CFunction where
  "f_int = \<lparr>signature = [1], returnType = 1, callNative = \<lambda>as. Inr 10\<rparr>"

definition f_double :: CFunction where
  "f_double = \<lparr>signature = [2], returnType = 2, callNative = \<lambda>as. Inr 20\<rparr>"

definition f_float :: CFunction where
  "f_float = \<lparr>signature = [4], returnType = 4, callNative = \<lambda>as. Inr 40\<rparr>"

definition f_string :: CFunction where
  "f_string = \<lparr>signature = [3], returnType = 3, callNative = \<lambda>as. Inl 99\<rparr>"

definition g_int_vector :: CFunction where
  "g_int_vector = \<lparr>signature = [1, 8], returnType = 1, callNative = \<lambda>as. Inr 11\<rparr>"

definition g_double_vector :: CFunction where
  "g_double_vector = \<lparr>signature = [2, 8], returnType = 1, callNative = \<lambda>as. Inr 21\<rparr>"

definition g_float_vector :: CFunction where
  "g_float_vector = \<lparr>signature = [4, 8], returnType = 1, callNative = \<lambda>as. Inr 41\<rparr>"

definition k_first :: CFunction where
  "k_first = \<lparr>signature = [], returnType = 1, callNative = \<lambda>as. Inr 1\<rparr>"

definition k_second :: CFunction where
  "k_second = \<lparr>signature = [], returnType = 1, callNative = \<lambda>as. Inr 2\<rparr>"

text \<open>The same world without the conversion from List to IntVector.\<close>

definition plain_env :: "enat Environment" where
  "plain_env =
     example_env\<lparr>bestSingleRoute := \<lambda>t i f.
        if t = f then Some exact_route
        else if t = 1 \<and> (f = 2 \<or> f = 4) then Some promote_route
        else None\<rparr>"

text \<open>
  A second world, in which the weights are graded. Every scripting value is an Int, and an
  Int converts to the formal types \<open>10 + k\<close> and \<open>20 + k\<close> by a route of weight \<open>k\<close>.
  The alternatives take two arguments and are named by their weights.
\<close>

definition graded_route :: "nat \<Rightarrow> enat ConversionRoute" where
  "graded_route k = \<lparr>totalWeight = \<lambda>i. enat k, applyRoute = \<lambda>v. (v, [])\<rparr>"

definition graded_env :: "enat Environment" where
  "graded_env =
     \<lparr>detectType = \<lambda>v. 1, detectInsight = \<lambda>v. 0,
      bestSingleRoute = \<lambda>t i f. if 10 \<le> f then Some (graded_route (f mod 10)) else None,
      getEdgeConversion = \<lambda>t. None\<rparr>"

definition r_3_3 :: CFunction where
  "r_3_3 = \<lparr>signature = [13, 13], returnType = 1, callNative = \<lambda>as. Inr 33\<rparr>"

definition s_3_3 :: CFunction where
  "s_3_3 = \<lparr>signature = [23, 23], returnType = 1, callNative = \<lambda>as. Inr 330\<rparr>"

definition r_2_5 :: CFunction where
  "r_2_5 = \<lparr>signature = [12, 15], returnType = 1, callNative = \<lambda>as. Inr 25\<rparr>"

definition r_2_4 :: CFunction where
  "r_2_4 = \<lparr>signature = [12, 14], returnType = 1, callNative = \<lambda>as. Inr 24\<rparr>"

definition r_4_4 :: CFunction where
  "r_4_4 = \<lparr>signature = [14, 14], returnType = 1, callNative = \<lambda>as. Inr 44\<rparr>"


subsection \<open>Facts about the helpers\<close>

lemma ex_less_Suc: "(\<exists>p<Suc n. P p) = (P 0 \<or> (\<exists>p<n. P (Suc p)))"
  by (metis less_Suc_eq_0_disj)

lemma compare_loop_witnesses:
  "length known = length suggested \<Longrightarrow> length suggested = length is \<Longrightarrow>
   compare_loop known suggested is (w, b) =
     (w \<or> (\<exists>p<length known. known ! p < totalWeight (suggested ! p) (is ! p)),
      b \<or> (\<exists>p<length known. totalWeight (suggested ! p) (is ! p) < known ! p))"
proof (induction known suggested "is" arbitrary: w b rule: list_induct3)
  case Nil
  show ?case by simp
next
  case (Cons k known s suggested i "is")
  show ?case
    by (auto simp: Let_def ex_less_Suc Cons.IH)
qed

lemma compareAlternatives_cases:
  assumes "length known = length suggested" and "length is = length known"
      and "worse = (\<exists>p<length known. known ! p < totalWeight (suggested ! p) (is ! p))"
      and "better = (\<exists>p<length known. totalWeight (suggested ! p) (is ! p) < known ! p)"
  shows "compareAlternatives known suggested is =
     Inr (if known = [] then OL_BETTER
          else if \<not> worse \<and> \<not> better then OL_EQUIVALENT
          else if better \<and> \<not> worse then OL_BETTER
          else if worse \<and> \<not> better then OL_WORSE
          else OL_AMBIGUOUS)"
proof (cases "known = []")
  case True
  with assms(1) show ?thesis by (simp add: compareAlternatives_def)
next
  case False
  have loop: "compare_loop known suggested is (False, False) = (worse, better)"
    using assms by (simp add: compare_loop_witnesses)
  have "length known \<noteq> 0"
    using False by simp
  moreover have "\<not> length known \<noteq> length suggested"
    using assms(1) by simp
  moreover have "\<not> length is < length known"
    using assms(2) by simp
  ultimately have "compareAlternatives known suggested is =
      (if worse \<noteq> better then Inr (if better then OL_BETTER else OL_WORSE)
       else Inr (if better then OL_AMBIGUOUS else OL_EQUIVALENT))"
    using loop unfolding compareAlternatives_def by (simp only: if_False split_conv)
  also have "\<dots> = Inr (if \<not> worse \<and> \<not> better then OL_EQUIVALENT
                   else if better \<and> \<not> worse then OL_BETTER
                   else if worse \<and> \<not> better then OL_WORSE
                   else OL_AMBIGUOUS)"
    by (cases worse; cases better; simp)
  finally show ?thesis
    using False by (simp only: if_False)
qed

lemma tournament_append:
  "tournament env n ts is (xs @ ys) index st =
     (case tournament env n ts is xs index st of
        Inl e \<Rightarrow> Inl e
      | Inr st' \<Rightarrow> tournament env n ts is ys (index + length xs) st')"
  by (induction xs arbitrary: index st) (auto split: sum.splits)

lemma bestSequenceRoute_length:
  "bestSequenceRoute tbl ts is fs = Some rs \<Longrightarrow>
   length rs = length fs \<and> length ts = length fs \<and> length is = length fs"
  by (induction tbl ts "is" fs arbitrary: rs rule: bestSequenceRoute.induct)
     (auto split: option.splits)

lemma bestSequenceRoute_nth:
  "bestSequenceRoute tbl ts is fs = Some rs \<Longrightarrow> p < length fs \<Longrightarrow>
   tbl (ts ! p) (is ! p) (fs ! p) = Some (rs ! p)"
  by (induction tbl ts "is" fs arbitrary: rs p rule: bestSequenceRoute.induct)
     (auto split: option.splits simp: nth_Cons')

lemma rememberWeights_length:
  "length rs = length is \<Longrightarrow> length (rememberWeights rs is) = length rs"
  by (simp add: rememberWeights_def)

lemma rememberWeights_nth:
  "p < length rs \<Longrightarrow> p < length is \<Longrightarrow>
   rememberWeights rs is ! p = totalWeight (rs ! p) (is ! p)"
  by (simp add: rememberWeights_def)

lemma conversionPossible_iff:
  "conversionPossible ws = (\<forall>w\<in>set ws. isPossible w)"
  by (induction ws) auto

subsection \<open>The body of the loop and its invariant\<close>

lemma examine_skip:
  "length (signature alt) \<noteq> n \<Longrightarrow> examine env n ts is alt index st = Inr st"
  by (simp add: examine_def)

lemma examine_no_route:
  "length (signature alt) = n \<Longrightarrow>
   bestSequenceRoute (bestSingleRoute env) ts is (signature alt) = None \<Longrightarrow>
   examine env n ts is alt index st
     = Inr (st\<lparr>queries := queries st @ [BestSequenceRoute (signature alt)]\<rparr>)"
  by (simp add: examine_def)

lemma examine_better:
  "length (signature alt) = n \<Longrightarrow>
   bestSequenceRoute (bestSingleRoute env) ts is (signature alt) = Some needed \<Longrightarrow>
   compareAlternatives (lightweight st) needed is = Inr OL_BETTER \<Longrightarrow>
   examine env n ts is alt index st
     = Inr (st\<lparr>queries := queries st @ [BestSequenceRoute (signature alt)],
              lightest := Some alt, cached_alt := index,
              lightroutes := map Some needed @ drop n (lightroutes st),
              lightweight := rememberWeights needed is,
              ambiguity_alert := False\<rparr>)"
  by (frule bestSequenceRoute_length) (simp add: examine_def)

lemma examine_worse:
  "length (signature alt) = n \<Longrightarrow>
   bestSequenceRoute (bestSingleRoute env) ts is (signature alt) = Some needed \<Longrightarrow>
   compareAlternatives (lightweight st) needed is = Inr OL_WORSE \<Longrightarrow>
   examine env n ts is alt index st
     = Inr (st\<lparr>queries := queries st @ [BestSequenceRoute (signature alt)]\<rparr>)"
  by (simp add: examine_def)

lemma examine_tie:
  "length (signature alt) = n \<Longrightarrow>
   bestSequenceRoute (bestSingleRoute env) ts is (signature alt) = Some needed \<Longrightarrow>
   compareAlternatives (lightweight st) needed is = Inr v \<Longrightarrow>
   v = OL_EQUIVALENT \<or> v = OL_AMBIGUOUS \<Longrightarrow>
   examine env n ts is alt index st
     = (case lightest st of
          None \<Rightarrow> Inl InvalidAccess
        | Some champion \<Rightarrow>
            Inr (st\<lparr>queries := queries st @ [BestSequenceRoute (signature alt)],
                    ambiguity_alert := ambiguity_alert st \<or> \<not> identicalAlternatives champion alt\<rparr>))"
  by (auto simp: examine_def Let_def split: option.splits)

lemma examine_champion_ok:
  assumes "champion_ok env n ts is seen st" and "length seen = index"
      and "examine env n ts is alt index st = Inr st'"
  shows "champion_ok env n ts is (seen @ [alt]) st'"
proof (cases "length (signature alt) = n")
  case False
  with assms show ?thesis
    by (auto simp: examine_skip champion_ok_def nth_append split: option.splits)
next
  case arity: True
  show ?thesis
  proof (cases "bestSequenceRoute (bestSingleRoute env) ts is (signature alt)")
    case None
    with assms arity show ?thesis
      by (auto simp: examine_no_route champion_ok_def nth_append split: option.splits)
  next
    case (Some needed)
    note len = bestSequenceRoute_length [OF Some]
    show ?thesis
    proof (cases "compareAlternatives (lightweight st) needed is")
      case (Inl e)
      with assms arity Some show ?thesis by (simp add: examine_def)
    next
      case (Inr v)
      show ?thesis
      proof (cases v)
        case OL_BETTER
        with assms arity Some Inr len show ?thesis
          by (auto simp: examine_better champion_ok_def rememberWeights_length)
      next
        case OL_WORSE
        with assms arity Some Inr show ?thesis
          by (auto simp: examine_worse champion_ok_def nth_append split: option.splits)
      next
        case OL_EQUIVALENT
        with assms arity Some Inr show ?thesis
          by (auto simp: examine_tie champion_ok_def nth_append split: option.splits)
      next
        case OL_AMBIGUOUS
        with assms arity Some Inr show ?thesis
          by (auto simp: examine_tie champion_ok_def nth_append split: option.splits)
      qed
    qed
  qed
qed

lemma tournament_champion_ok:
  "champion_ok env n ts is seen st \<Longrightarrow> length seen = index \<Longrightarrow>
   tournament env n ts is alts index st = Inr st' \<Longrightarrow>
   champion_ok env n ts is (seen @ alts) st'"
proof (induction alts arbitrary: seen index st)
  case Nil
  then show ?case by simp
next
  case (Cons alt alts)
  from Cons.prems(3) obtain st1 where
    ex: "examine env n ts is alt index st = Inr st1" and
    rest: "tournament env n ts is alts (Suc index) st1 = Inr st'"
    by (auto split: sum.splits)
  have "champion_ok env n ts is (seen @ [alt]) st1"
    using examine_champion_ok [OF Cons.prems(1,2) ex] .
  from Cons.IH [OF this _ rest] Cons.prems(2) show ?case by simp
qed

lemma initial_champion_ok: "champion_ok env n ts is [] (initial n)"
  by (simp add: champion_ok_def initial_def)

lemma tournament_initial_ok:
  "tournament env n ts is alts 0 (initial n) = Inr st \<Longrightarrow> champion_ok env n ts is alts st"
  using tournament_champion_ok [OF initial_champion_ok, of 0 env n ts "is" alts st] by simp

lemma routes_possible_nth:
  assumes "routes_possible env"
      and "bestSequenceRoute (bestSingleRoute env) ts is fs = Some needed"
      and "p < length fs"
  shows "isPossible (totalWeight (needed ! p) (is ! p))"
  using assms(1) bestSequenceRoute_nth [OF assms(2,3)]
  by (auto simp: routes_possible_def)

lemma compare_with_infinite:
  assumes "length needed = n" and "length is = n"
      and "\<forall>p<n. isPossible (totalWeight (needed ! p) (is ! p))"
  shows "compareAlternatives (replicate n INFINITE) needed is = Inr OL_BETTER"
proof (cases "n = 0")
  case True
  with assms show ?thesis by (simp add: compareAlternatives_def)
next
  case False
  have "\<not> (\<exists>p<n. (replicate n INFINITE :: 'a list) ! p < totalWeight (needed ! p) (is ! p))"
    by (auto simp: INFINITE_def)
  moreover have "\<exists>p<n. totalWeight (needed ! p) (is ! p) < (replicate n INFINITE :: 'a list) ! p"
    using assms(3) False by (auto simp: isPossible_def intro!: exI [of _ 0])
  ultimately show ?thesis
    using assms(1,2) False
    by (simp add: compareAlternatives_cases [of "replicate n INFINITE" needed "is", OF _ _ refl
          refl])
qed

subsection \<open>Events of a trace\<close>

lemma trashed_append: "trashed (xs @ ys) = trashed xs @ trashed ys"
  by (induction xs rule: trashed.induct) simp_all

lemma released_append: "released (xs @ ys) = released xs @ released ys"
  by (induction xs rule: released.induct) simp_all

lemma invoked_append: "invoked (xs @ ys) = invoked xs @ invoked ys"
  by (induction xs rule: invoked.induct) simp_all

lemma table_queries_append: "table_queries (xs @ ys) = table_queries xs @ table_queries ys"
  by (induction xs rule: table_queries.induct) simp_all

lemma events_of_Trash:
  "trashed (map Trash vs) = vs" "released (map Trash vs) = []"
  "invoked (map Trash vs) = []" "table_queries (map Trash vs) = []"
  by (induction vs) simp_all

lemma events_of_SinkRelease:
  "trashed (map SinkRelease vs) = []" "released (map SinkRelease vs) = vs"
  "invoked (map SinkRelease vs) = []" "table_queries (map SinkRelease vs) = []"
  by (induction vs) simp_all

lemma events_of_BestSequenceRoute:
  "trashed (map BestSequenceRoute sigs) = []" "released (map BestSequenceRoute sigs) = []"
  "invoked (map BestSequenceRoute sigs) = []" "table_queries (map BestSequenceRoute sigs) = sigs"
  by (induction sigs) simp_all

lemma events_of_detect:
  "trashed (detect_events actual) = []" "released (detect_events actual) = []"
  "invoked (detect_events actual) = []" "table_queries (detect_events actual) = []"
  by (induction actual) (simp_all add: detect_events_def)

lemma examine_queries:
  "examine env n ts is alt index st = Inr st' \<Longrightarrow>
   \<exists>sigs. queries st' = queries st @ map BestSequenceRoute sigs"
proof (cases "length (signature alt) = n")
  case False
  assume "examine env n ts is alt index st = Inr st'"
  with False have "st' = st" by (simp add: examine_skip)
  then have "queries st' = queries st @ map BestSequenceRoute []" by simp
  then show ?thesis by blast
next
  case True
  assume "examine env n ts is alt index st = Inr st'"
  with True have "queries st' = queries st @ map BestSequenceRoute [signature alt]"
    by (auto simp: examine_def Let_def
             split: option.splits sum.splits overloading_relationship.splits if_splits)
  then show ?thesis by blast
qed

lemma tournament_queries:
  "tournament env n ts is alts index st = Inr st' \<Longrightarrow>
   \<exists>sigs. queries st' = queries st @ map BestSequenceRoute sigs"
proof (induction alts arbitrary: index st)
  case Nil
  then have "queries st' = queries st @ map BestSequenceRoute []" by simp
  then show ?case by blast
next
  case (Cons alt alts)
  from Cons.prems obtain st1 where
    ex: "examine env n ts is alt index st = Inr st1" and
    rest: "tournament env n ts is alts (Suc index) st1 = Inr st'"
    by (auto split: sum.splits)
  from examine_queries [OF ex] obtain s1 where
    "queries st1 = queries st @ map BestSequenceRoute s1" by blast
  moreover from Cons.IH [OF rest] obtain s2 where
    "queries st' = queries st1 @ map BestSequenceRoute s2" by blast
  ultimately have "queries st' = queries st @ map BestSequenceRoute (s1 @ s2)" by simp
  then show ?case by blast
qed

lemma tournament_initial_queries:
  assumes "tournament env n ts is alts 0 (initial n) = Inr st"
  shows "\<exists>sigs. queries st = map BestSequenceRoute sigs"
  using tournament_queries [OF assms] by (simp add: initial_def)

subsection \<open>Conversion, invocation and the verdict\<close>

lemma convert_loop_Some:
  "length original = length needed \<Longrightarrow>
   \<exists>converted gc'. convert_loop original (map Some needed) gc = Inr (converted, gc')
                    \<and> length converted = length original"
proof (induction original needed arbitrary: gc rule: list_induct2)
  case Nil
  then show ?case by simp
next
  case (Cons a original r needed)
  obtain v garbage where ap: "applyRoute r a = (v, garbage)" by (cases "applyRoute r a")
  from Cons.IH [of "gc @ garbage"] obtain converted gc' where
    "convert_loop original (map Some needed) (gc @ garbage) = Inr (converted, gc')"
    "length converted = length original" by blast
  with ap show ?case by simp
qed

lemma convertSequence_Some:
  "length original = length needed \<Longrightarrow>
   \<exists>converted gc'. convertSequence original (map Some needed) gc = Inr (converted, gc')
                    \<and> length converted = length original"
  using convert_loop_Some [of original needed gc] by (simp add: convertSequence_def)

lemma convert_loop_error:
  "convert_loop original conversions gc = Inl e \<Longrightarrow> e = InvalidAccess"
  by (induction original conversions gc rule: convert_loop.induct)
     (auto split: option.splits prod.splits sum.splits)

lemma convertSequence_error:
  "convertSequence original conversions gc = Inl e \<Longrightarrow> e = InvalidAccess \<or> e = AssertionFailure"
  by (auto simp: convertSequence_def dest: convert_loop_error split: if_splits)

lemma convert_loop_routes:
  "length original = length needed \<Longrightarrow>
   convert_loop original (map Some needed) gc
     = Inr (map (\<lambda>(a, r). fst (applyRoute r a)) (zip original needed),
            gc @ concat (map (\<lambda>(a, r). snd (applyRoute r a)) (zip original needed)))"
proof (induction original needed arbitrary: gc rule: list_induct2)
  case Nil
  then show ?case by simp
next
  case (Cons a original r needed)
  then show ?case by (simp add: split_beta)
qed

lemma convertSequence_routes:
  assumes "convertSequence original (map Some needed) [] = Inr (converted, gc)"
  shows "converted = map (\<lambda>(a, r). fst (applyRoute r a)) (zip original needed)
         \<and> gc = concat (map (\<lambda>(a, r). snd (applyRoute r a)) (zip original needed))"
proof -
  from assms have len: "length original = length needed"
    by (auto simp: convertSequence_def split: if_splits)
  with assms convert_loop_routes [OF len, of "[]"] show ?thesis
    by (simp add: convertSequence_def)
qed

lemma invoke_events:
  assumes "invoke env match converted gc = (result, ev, gc')"
  shows "trashed ev = []" and "released ev @ gc' = gc" and "table_queries ev = []"
    and "result \<noteq> Inl OverloadingAmbiguity"
  using assms
  by (auto simp: invoke_def applyEdgeConversions_def cleanUp_def events_of_SinkRelease
                 released_append trashed_append table_queries_append
           split: option.splits sum.splits prod.splits)

lemma tournament_queries_clean:
  assumes "tournament env n ts is alts 0 (initial n) = Inr st"
  shows "trashed (queries st) = []" and "released (queries st) = []"
    and "invoked (queries st) = []"
  using tournament_initial_queries [OF assms]
  by (auto simp: events_of_BestSequenceRoute)

lemma locate_events:
  assumes "locate env S cache actual = (r, cache', ev)"
  shows "released ev = []"
    and "trashed ev = (case r of Inl e \<Rightarrow> [] | Inr (m, converted, gc) \<Rightarrow> gc)"
  using assms
  by (auto simp: locate_def Let_def events_of_Trash released_append trashed_append
           dest: tournament_queries_clean
           split: option.splits sum.splits if_splits prod.splits)

lemma verdict_initial: "verdict (initial n) = Some OverloadingNoMatch"
  by (simp add: verdict_def initial_def)

lemma initial_queries: "queries (initial n) = []"
  by (simp add: initial_def)

lemma consistent_hit:
  assumes "cache_consistent env S cache"
      and "recall cache (this_set S) (length actual) (map (detectType env) actual)
             (map (detectInsight env) actual) = Some idx"
  shows "\<exists>st. tournament env (length actual) (map (detectType env) actual)
               (map (detectInsight env) actual) (m_alternatives S) 0 (initial (length actual))
             = Inr st
            \<and> verdict st = None \<and> cached_alt st = idx"
  using assms(1) assms(2) [folded length_map [of "detectType env" actual]]
  unfolding cache_consistent_def
  by (metis length_map)

subsection \<open>The loop for a call without arguments\<close>

lemma bestSequenceRoute_nullary:
  "bestSequenceRoute tbl [] [] fs = (if fs = [] then Some [] else None)"
  by (cases fs) simp_all

lemma compareAlternatives_nullary: "compareAlternatives [] [] is = Inr OL_BETTER"
  by (simp add: compareAlternatives_def)

lemma examine_nullary:
  assumes "lightweight st = []"
  shows "examine env 0 [] [] alt index st =
     (if signature alt = []
      then Inr (st\<lparr>queries := queries st @ [BestSequenceRoute []],
                   lightest := Some alt, cached_alt := index,
                   lightroutes := lightroutes st, lightweight := [],
                   ambiguity_alert := False\<rparr>)
      else Inr st)"
  using assms
  by (simp add: examine_def bestSequenceRoute_nullary compareAlternatives_nullary
                rememberWeights_def)

lemma tournament_nullary:
  "\<exists>st. tournament env 0 [] [] alts 0 (initial 0) = Inr st
        \<and> lightweight st = [] \<and> lightroutes st = []
        \<and> \<not> ambiguity_alert st
        \<and> lightest st = (if filter (\<lambda>a. signature a = []) alts = [] then None
                          else Some (last (filter (\<lambda>a. signature a = []) alts)))"
proof (induction alts rule: rev_induct)
  case Nil
  show ?case by (simp add: initial_def)
next
  case (snoc alt alts)
  then obtain st where st: "tournament env 0 [] [] alts 0 (initial 0) = Inr st"
    "lightweight st = []" "lightroutes st = []" "\<not> ambiguity_alert st"
    "lightest st = (if filter (\<lambda>a. signature a = []) alts = [] then None
                    else Some (last (filter (\<lambda>a. signature a = []) alts)))"
    by blast
  then show ?case
    by (simp add: tournament_append examine_nullary)
qed

lemma compareAlternatives_error:
  "compareAlternatives known suggested is = Inl e \<Longrightarrow> e = InvalidAccess \<or> e = AssertionFailure"
  by (auto simp: compareAlternatives_def split: if_splits prod.splits)

lemma examine_error:
  "examine env n ts is alt index st = Inl e \<Longrightarrow> e = InvalidAccess \<or> e = AssertionFailure"
  by (auto simp: examine_def Let_def dest: compareAlternatives_error
           split: option.splits sum.splits overloading_relationship.splits if_splits)

lemma tournament_error:
  "tournament env n ts is alts index st = Inl e \<Longrightarrow> e = InvalidAccess \<or> e = AssertionFailure"
proof (induction alts arbitrary: index st)
  case Nil
  then show ?case by simp
next
  case (Cons alt alts)
  show ?case
  proof (cases "examine env n ts is alt index st")
    case (Inl e')
    with Cons.prems examine_error [OF Inl] show ?thesis by simp
  next
    case (Inr st1)
    with Cons.prems Cons.IH [of "Suc index" st1] show ?thesis by simp
  qed
qed

lemma locate_not_ambiguity:
  assumes "locate env S cache actual = (Inl OverloadingAmbiguity, cache', ev)"
  shows "\<exists>st. tournament env (length actual) (map (detectType env) actual)
               (map (detectInsight env) actual) (m_alternatives S) 0 (initial (length actual))
             = Inr st
            \<and> verdict st = Some OverloadingAmbiguity"
  using assms
  by (auto simp: locate_def Let_def
           dest: convertSequence_error tournament_error
           split: option.splits sum.splits if_splits prod.splits)

subsection \<open>The two paths of a call\<close>

lemma invoke_Some:
  assumes "invoke env (Some m) converted gc = (result, ev, gc')"
  shows "\<exists>rest. ev = Invoke m converted # rest \<and> invoked rest = [] \<and> table_queries rest = []"
  using assms
  by (auto simp: invoke_def applyEdgeConversions_def cleanUp_def events_of_SinkRelease
                 invoked_append table_queries_append
           split: option.splits sum.splits prod.splits)

lemma invoke_success:
  assumes "invoke env match converted gc = (Inr v, ev, gc')"
  shows "\<exists>m. match = Some m"
  using assms by (cases match) (auto simp: invoke_def)

lemma call_hit:
  assumes "length actual \<le> 12"
      and "recall cache (this_set S) (length actual) (map (detectType env) actual)
             (map (detectInsight env) actual) = Some idx"
      and "idx < length (m_alternatives S)"
      and "bestSequenceRoute (bestSingleRoute env) (map (detectType env) actual)
             (map (detectInsight env) actual) (signature (m_alternatives S ! idx)) = Some needed"
      and "convertSequence actual (map Some needed) [] = Inr (converted, gc)"
      and "invoke env (Some (m_alternatives S ! idx)) converted gc = (result, ev, gc')"
  shows "call env S cache actual =
           \<lparr>outcome = result, cache_after = cache,
            trace = detect_events actual
                    @ [CacheRecall (Some idx), BestSequenceRoute (signature (m_alternatives S ! idx))]
                    @ map Trash gc @ ev @ map SinkRelease gc'\<rparr>"
  using assms
  by (simp add: call_def locate_def Let_def ARGUMENT_ARRAY_LIMIT_def cleanUp_def)

lemma call_miss:
  assumes "length actual \<le> 12"
      and "recall cache (this_set S) (length actual) (map (detectType env) actual)
             (map (detectInsight env) actual) = None"
      and "tournament env (length actual) (map (detectType env) actual)
             (map (detectInsight env) actual) (m_alternatives S) 0 (initial (length actual))
           = Inr st"
      and "verdict st = None"
      and "convertSequence actual (lightroutes st) [] = Inr (converted, gc)"
      and "invoke env (lightest st) converted gc = (result, ev, gc')"
  shows "call env S cache actual =
           \<lparr>outcome = result,
            cache_after = remember cache (this_set S) (length actual)
                            (map (detectType env) actual) (map (detectInsight env) actual)
                            (cached_alt st),
            trace = detect_events actual
                    @ CacheRecall None # queries st @ [CacheRemember (cached_alt st)]
                    @ map Trash gc @ ev @ map SinkRelease gc'\<rparr>"
  using assms
  by (simp add: call_def locate_def Let_def ARGUMENT_ARRAY_LIMIT_def cleanUp_def)

lemma call_miss_failure:
  assumes "length actual \<le> 12"
      and "recall cache (this_set S) (length actual) (map (detectType env) actual)
             (map (detectInsight env) actual) = None"
      and "tournament env (length actual) (map (detectType env) actual)
             (map (detectInsight env) actual) (m_alternatives S) 0 (initial (length actual))
           = Inr st"
      and "verdict st = Some e"
  shows "call env S cache actual =
           \<lparr>outcome = Inl e, cache_after = cache,
            trace = detect_events actual @ CacheRecall None # queries st\<rparr>"
  using assms
  by (simp add: call_def locate_def Let_def ARGUMENT_ARRAY_LIMIT_def)

lemma call_success_cases:
  assumes "outcome (call env S cache actual) = Inr v"
  shows "length actual \<le> 12 \<and>
     ((\<exists>idx needed converted gc.
          recall cache (this_set S) (length actual) (map (detectType env) actual)
            (map (detectInsight env) actual) = Some idx
        \<and> idx < length (m_alternatives S)
        \<and> bestSequenceRoute (bestSingleRoute env) (map (detectType env) actual)
            (map (detectInsight env) actual) (signature (m_alternatives S ! idx)) = Some needed
        \<and> convertSequence actual (map Some needed) [] = Inr (converted, gc))
      \<or> (\<exists>st converted gc.
          recall cache (this_set S) (length actual) (map (detectType env) actual)
            (map (detectInsight env) actual) = None
        \<and> tournament env (length actual) (map (detectType env) actual)
             (map (detectInsight env) actual) (m_alternatives S) 0 (initial (length actual))
           = Inr st
        \<and> verdict st = None
        \<and> convertSequence actual (lightroutes st) [] = Inr (converted, gc)))"
  using assms
  by (auto simp: call_def locate_def Let_def ARGUMENT_ARRAY_LIMIT_def
           split: option.splits sum.splits if_splits prod.splits)

lemma call_empty_set_cases:
  assumes "m_alternatives S = []" and "length actual \<le> 12"
  shows "(recall cache (this_set S) (length actual) (map (detectType env) actual)
            (map (detectInsight env) actual) = None \<longrightarrow>
            outcome (call env S cache actual) = Inl OverloadingNoMatch
            \<and> table_queries (trace (call env S cache actual)) = []
            \<and> invoked (trace (call env S cache actual)) = []
            \<and> cache_after (call env S cache actual) = cache)
         \<and> (recall cache (this_set S) (length actual) (map (detectType env) actual)
               (map (detectInsight env) actual) \<noteq> None \<longrightarrow>
               outcome (call env S cache actual) = Inl InvalidAccess)"
  using assms
  by (auto simp: call_def locate_def ARGUMENT_ARRAY_LIMIT_def verdict_initial
                 events_of_detect initial_queries invoked_append table_queries_append)

lemma recall_remember:
  "recall (remember cache me n ts is idx) me n ts is = Some idx"
  by (simp add: recall_def remember_def)

lemma verdict_None_champion:
  "verdict st = None \<Longrightarrow> \<exists>c. lightest st = Some c"
  by (auto simp: verdict_def split: if_splits)

lemma champion_of_tournament:
  assumes "tournament env n ts is alts 0 (initial n) = Inr st"
      and "lightest st = Some c"
  shows "cached_alt st < length alts \<and> alts ! cached_alt st = c \<and> length (signature c) = n
         \<and> (\<exists>needed. bestSequenceRoute (bestSingleRoute env) ts is (signature c) = Some needed
                      \<and> lightroutes st = map Some needed
                      \<and> lightweight st = rememberWeights needed is)"
  using tournament_initial_ok [OF assms(1)] assms(2)
  by (simp add: champion_ok_def)

subsection \<open>The loop in terms of the weights of the alternatives\<close>

lemma candidate_weights_routes:
  assumes "candidate_weights env ts is alt = Some w"
  shows "\<exists>needed. bestSequenceRoute (bestSingleRoute env) ts is (signature alt) = Some needed
                   \<and> w = rememberWeights needed is
                   \<and> length needed = length ts \<and> length is = length ts
                   \<and> length (signature alt) = length ts \<and> length w = length ts"
proof -
  from assms obtain needed where
    n: "bestSequenceRoute (bestSingleRoute env) ts is (signature alt) = Some needed"
       "w = rememberWeights needed is"
    by (auto simp: candidate_weights_def)
  from bestSequenceRoute_length [OF n(1)] n show ?thesis
    by (simp add: rememberWeights_length)
qed

lemma compare_by_weights:
  assumes "length known = length needed" and "length is = length needed"
  shows "compareAlternatives known needed is =
     Inr (if known = [] then OL_BETTER
          else if \<not> (\<exists>p<length known. known ! p < rememberWeights needed is ! p)
                  \<and> \<not> (\<exists>p<length known. rememberWeights needed is ! p < known ! p)
               then OL_EQUIVALENT
          else if (\<exists>p<length known. rememberWeights needed is ! p < known ! p)
                  \<and> \<not> (\<exists>p<length known. known ! p < rememberWeights needed is ! p)
               then OL_BETTER
          else if (\<exists>p<length known. known ! p < rememberWeights needed is ! p)
                  \<and> \<not> (\<exists>p<length known. rememberWeights needed is ! p < known ! p)
               then OL_WORSE
          else OL_AMBIGUOUS)"
proof -
  have eq: "(\<exists>p<length known. known ! p < rememberWeights needed is ! p)
        = (\<exists>p<length known. known ! p < totalWeight (needed ! p) (is ! p))"
      "(\<exists>p<length known. rememberWeights needed is ! p < known ! p)
        = (\<exists>p<length known. totalWeight (needed ! p) (is ! p) < known ! p)"
    using assms by (auto simp: rememberWeights_nth)
  have len: "length is = length known"
    using assms by simp
  show ?thesis
    unfolding eq by (rule compareAlternatives_cases [OF assms(1) len refl refl])
qed

lemma identical_loop_eq:
  "length xs = length ys \<Longrightarrow> identical_loop xs ys = (xs = ys)"
  by (induction xs ys rule: list_induct2) auto

lemma identicalAlternatives_iff:
  "identicalAlternatives alt1 alt2 = (signature alt1 = signature alt2)"
  by (auto simp: identicalAlternatives_def identical_loop_eq)

lemma examine_lighter:
  assumes "candidate_weights env ts is alt = Some w" and "length ts = n"
      and "length (lightweight st) = n" and "length (lightroutes st) = n"
      and "\<forall>p<n. w ! p \<le> lightweight st ! p" and "\<exists>p<n. w ! p < lightweight st ! p"
  shows "examine env n ts is alt index st
           = Inr (st\<lparr>queries := queries st @ [BestSequenceRoute (signature alt)],
                    lightest := Some alt, cached_alt := index,
                    lightroutes := map Some (the (bestSequenceRoute (bestSingleRoute env) ts is
                                                   (signature alt))),
                    lightweight := w,
                    ambiguity_alert := False\<rparr>)"
proof -
  from candidate_weights_routes [OF assms(1)] obtain needed where
    n: "bestSequenceRoute (bestSingleRoute env) ts is (signature alt) = Some needed"
       "w = rememberWeights needed is" "length needed = length ts" "length is = length ts"
       "length (signature alt) = length ts" by blast
  have "\<not> (\<exists>p<n. lightweight st ! p < w ! p)"
    using assms(5) by (auto simp: not_less)
  with assms(2,3,6) n have "compareAlternatives (lightweight st) needed is = Inr OL_BETTER"
    by (auto simp: compare_by_weights)
  with n assms(2,4) show ?thesis
    by (simp add: examine_better)
qed

lemma examine_heavier:
  assumes "candidate_weights env ts is alt = Some w" and "length ts = n"
      and "length (lightweight st) = n"
      and "\<forall>p<n. lightweight st ! p \<le> w ! p" and "\<exists>p<n. lightweight st ! p < w ! p"
  shows "examine env n ts is alt index st
           = Inr (st\<lparr>queries := queries st @ [BestSequenceRoute (signature alt)]\<rparr>)"
proof -
  from candidate_weights_routes [OF assms(1)] obtain needed where
    n: "bestSequenceRoute (bestSingleRoute env) ts is (signature alt) = Some needed"
       "w = rememberWeights needed is" "length needed = length ts" "length is = length ts"
       "length (signature alt) = length ts" by blast
  have "\<not> (\<exists>p<n. w ! p < lightweight st ! p)"
    using assms(4) by (auto simp: not_less)
  with assms(2,3,5) n have "compareAlternatives (lightweight st) needed is = Inr OL_WORSE"
    by (auto simp: compare_by_weights)
  with n assms(2) show ?thesis
    by (simp add: examine_worse)
qed

lemma examine_not_applicable:
  assumes "candidate_weights env ts is alt = None"
  shows "\<exists>q. examine env n ts is alt index st = Inr (st\<lparr>queries := q\<rparr>)"
proof (cases "length (signature alt) = n")
  case True
  with assms have "examine env n ts is alt index st
      = Inr (st\<lparr>queries := queries st @ [BestSequenceRoute (signature alt)]\<rparr>)"
    by (simp add: examine_no_route candidate_weights_def)
  then show ?thesis by blast
next
  case False
  then have "examine env n ts is alt index st = Inr (st\<lparr>queries := queries st\<rparr>)"
    by (simp add: examine_skip)
  then show ?thesis by blast
qed

lemma call_invokes_champion:
  assumes "length actual \<le> 12" and "cache_consistent env S cache"
      and "tournament env (length actual) (map (detectType env) actual)
             (map (detectInsight env) actual) (m_alternatives S) 0 (initial (length actual))
           = Inr st"
      and "verdict st = None" and "lightest st = Some c"
  shows "invoked (trace (call env S cache actual)) = [c]"
proof -
  let ?ts = "map (detectType env) actual" and ?is = "map (detectInsight env) actual"
  from champion_of_tournament [OF assms(3,5)] obtain needed where
    ch: "cached_alt st < length (m_alternatives S)" "m_alternatives S ! cached_alt st = c"
        "bestSequenceRoute (bestSingleRoute env) ?ts ?is (signature c) = Some needed"
        "lightroutes st = map Some needed" by blast
  from bestSequenceRoute_length [OF ch(3)] have "length actual = length needed" by simp
  from convertSequence_Some [OF this, of "[]"] obtain converted gc where
    conv: "convertSequence actual (map Some needed) [] = Inr (converted, gc)" by blast
  obtain result ev gc' where inv: "invoke env (Some c) converted gc = (result, ev, gc')"
    by (cases "invoke env (Some c) converted gc")
  from invoke_Some [OF inv] obtain rest where
    rest: "ev = Invoke c converted # rest" "invoked rest = []" by blast
  show ?thesis
  proof (cases "recall cache (this_set S) (length actual) ?ts ?is")
    case None
    from call_miss [OF assms(1) None assms(3,4), of converted gc result ev gc']
         conv ch(4) inv assms(5) rest tournament_queries_clean(3) [OF assms(3)]
    show ?thesis
      by (simp add: events_of_detect events_of_Trash events_of_SinkRelease invoked_append)
  next
    case (Some idx)
    from consistent_hit [OF assms(2) Some] assms(3) have idx: "idx = cached_alt st" by auto
    from call_hit [OF assms(1) Some, of needed converted gc result ev gc']
         idx ch conv inv rest
    show ?thesis
      by (simp add: events_of_detect events_of_Trash events_of_SinkRelease invoked_append)
  qed
qed

lemma call_fails_with_verdict:
  assumes "length actual \<le> 12" and "cache_consistent env S cache"
      and "tournament env (length actual) (map (detectType env) actual)
             (map (detectInsight env) actual) (m_alternatives S) 0 (initial (length actual))
           = Inr st"
      and "verdict st = Some e"
  shows "outcome (call env S cache actual) = Inl e"
    and "invoked (trace (call env S cache actual)) = []"
    and "cache_after (call env S cache actual) = cache"
proof -
  let ?ts = "map (detectType env) actual" and ?is = "map (detectInsight env) actual"
  have miss: "recall cache (this_set S) (length actual) ?ts ?is = None"
  proof (rule ccontr)
    assume "\<not> ?thesis"
    then obtain idx where "recall cache (this_set S) (length actual) ?ts ?is = Some idx" by auto
    from consistent_hit [OF assms(2) this] assms(3,4) show False by auto
  qed
  note c = call_miss_failure [OF assms(1) miss assms(3,4)]
  show "outcome (call env S cache actual) = Inl e"
    and "cache_after (call env S cache actual) = cache"
    by (simp_all add: c)
  show "invoked (trace (call env S cache actual)) = []"
    using tournament_queries_clean(3) [OF assms(3)]
    by (simp add: c events_of_detect invoked_append)
qed

lemma initial_lengths:
  "length (lightweight (initial n)) = n" "length (lightroutes (initial n)) = n"
  by (simp_all add: initial_def)

lemma initial_weight_nth: "p < n \<Longrightarrow> lightweight (initial n) ! p = INFINITE"
  by (simp add: initial_def)

lemma compare_with_blank:
  assumes "candidate_weights env ts is alt = Some w" and "length ts = n"
      and "\<exists>p<n. isPossible (w ! p)"
  shows "compareAlternatives (replicate n INFINITE)
           (the (bestSequenceRoute (bestSingleRoute env) ts is (signature alt))) is
         = Inr OL_BETTER"
proof -
  from candidate_weights_routes [OF assms(1)] obtain needed where
    n: "bestSequenceRoute (bestSingleRoute env) ts is (signature alt) = Some needed"
       "w = rememberWeights needed is" "length needed = length ts" "length is = length ts"
    by blast
  have "\<not> (\<exists>p<n. (replicate n INFINITE :: 'a list) ! p < w ! p)"
    by (auto simp: INFINITE_def)
  moreover have "\<exists>p<n. w ! p < (replicate n INFINITE :: 'a list) ! p"
    using assms(3) by (auto simp: isPossible_def)
  ultimately show ?thesis
    using n assms(2,3) by (auto simp: compare_by_weights)
qed

lemma examine_total:
  assumes "champion_ok env n ts is seen st" and "length ts = n"
      and "\<forall>w. candidate_weights env ts is alt = Some w \<longrightarrow> (\<exists>p<n. isPossible (w ! p))"
  shows "\<exists>st'. examine env n ts is alt index st = Inr st'"
proof (cases "candidate_weights env ts is alt")
  case None
  from examine_not_applicable [OF None] show ?thesis by blast
next
  case (Some w)
  from candidate_weights_routes [OF Some] obtain needed where
    n: "bestSequenceRoute (bestSingleRoute env) ts is (signature alt) = Some needed"
       "w = rememberWeights needed is" "length needed = length ts" "length is = length ts"
       "length (signature alt) = length ts" by blast
  from assms(1) have lens: "length (lightweight st) = n" "length (lightroutes st) = n"
    by (simp_all add: champion_ok_def)
  from compare_by_weights [of "lightweight st" needed "is"] lens n assms(2)
  obtain v where v: "compareAlternatives (lightweight st) needed is = Inr v" by auto
  show ?thesis
  proof (cases "lightest st")
    case None
    with assms(1) have "lightweight st = replicate n INFINITE"
      by (simp add: champion_ok_def)
    with compare_with_blank [OF Some assms(2)] assms(3) Some n
    have "compareAlternatives (lightweight st) needed is = Inr OL_BETTER" by simp
    with n assms(2) show ?thesis by (simp add: examine_better)
  next
    case champion: (Some c)
    show ?thesis
    proof (cases v)
      case OL_BETTER
      with v n assms(2) show ?thesis by (simp add: examine_better)
    next
      case OL_WORSE
      with v n assms(2) show ?thesis by (simp add: examine_worse)
    next
      case OL_EQUIVALENT
      with v n assms(2) champion show ?thesis by (simp add: examine_tie)
    next
      case OL_AMBIGUOUS
      with v n assms(2) champion show ?thesis by (simp add: examine_tie)
    qed
  qed
qed

lemma pointwise_less_witness:
  fixes a b :: "'w::linorder list"
  assumes "length a = n" and "length b = n" and "\<forall>p<n. a ! p \<le> b ! p" and "a \<noteq> b"
  shows "\<exists>p<n. a ! p < b ! p"
proof (rule ccontr)
  assume "\<not> ?thesis"
  with assms(3) have "\<forall>p<n. a ! p = b ! p" by (metis order.not_eq_order_implies_strict)
  with assms(1,2) have "a = b" by (auto intro: nth_equalityI)
  with assms(4) show False by simp
qed

lemma candidate_weights_length:
  "candidate_weights env ts is alt = Some w \<Longrightarrow> length w = length ts"
  using candidate_weights_routes by blast

lemma equivalent_weights:
  assumes "bestSequenceRoute (bestSingleRoute env) ts is (signature alt) = Some needed"
      and "length w = length ts"
      and "compareAlternatives w needed is = Inr OL_EQUIVALENT"
  shows "candidate_weights env ts is alt = Some w \<and> w \<noteq> []"
proof -
  note len = bestSequenceRoute_length [OF assms(1)]
  have l1: "length w = length needed" and l2: "length is = length needed"
    using len assms(2) by simp_all
  note c = compare_by_weights [OF l1 l2]
  have ne: "w \<noteq> []"
    using assms(3) c by (auto split: if_splits)
  have none: "\<not> (\<exists>p<length w. w ! p < rememberWeights needed is ! p)"
             "\<not> (\<exists>p<length w. rememberWeights needed is ! p < w ! p)"
    using assms(3) c ne by (auto split: if_splits)
  have "\<forall>p<length w. w ! p = rememberWeights needed is ! p"
    using none by (metis linorder_neqE)
  moreover have "length (rememberWeights needed is) = length w"
    using l1 l2 by (simp add: rememberWeights_length)
  ultimately have "rememberWeights needed is = w"
    by (auto intro: nth_equalityI)
  with assms(1) ne show ?thesis
    by (simp add: candidate_weights_def)
qed

subsection \<open>Domination and the order of registration\<close>

text \<open>
  The loop keeps \<open>settled\<close>; from it, a set with two tied alternatives that are not
  identical fails with \<open>OverloadingAmbiguity\<close> when its undominated alternatives have
  possible weights and each dominated one is dominated twice over
  (\<open>ambiguous_in_this_order\<close>). Where one of these conditions fails, the same alternatives
  registered in a suitable order end otherwise (\<open>some_order_is_not_ambiguous\<close>).
\<close>

lemma lighter_irrefl: "\<not> lighter a a"
  by (auto simp: lighter_def)

lemma lighter_trans: "lighter a b \<Longrightarrow> lighter b c \<Longrightarrow> lighter a c"
  unfolding lighter_def
  by (metis (no_types, lifting) order_trans order_less_le_trans)

lemma lighter_asym: "lighter a b \<Longrightarrow> \<not> lighter b a"
  unfolding lighter_def by (metis leD)

lemma lighter_iff: "lighter a b = (list_all2 (\<le>) a b \<and> a \<noteq> b)"
proof
  assume "lighter a b"
  then show "list_all2 (\<le>) a b \<and> a \<noteq> b"
    by (auto simp: lighter_def list_all2_conv_all_nth)
next
  assume r: "list_all2 (\<le>) a b \<and> a \<noteq> b"
  then have len: "length a = length b" and le: "\<forall>p<length a. a ! p \<le> b ! p"
    by (auto simp: list_all2_conv_all_nth)
  from pointwise_less_witness [OF refl len [symmetric] le] r
  show "lighter a b" using len le by (simp add: lighter_def)
qed

lemma dominates_weights:
  "candidate_weights env ts is X = Some wX \<Longrightarrow> candidate_weights env ts is Y = Some wY \<Longrightarrow>
   dominates env ts is X Y = lighter wX wY"
  by (simp add: dominates_def)

lemma dominates_applicable:
  "dominates env ts is X Y \<Longrightarrow>
   candidate_weights env ts is X \<noteq> None \<and> candidate_weights env ts is Y \<noteq> None"
  by (auto simp: dominates_def split: option.splits)

lemma dominates_trans:
  "dominates env ts is X Y \<Longrightarrow> dominates env ts is Y Z \<Longrightarrow> dominates env ts is X Z"
  by (auto simp: dominates_def split: option.splits intro: lighter_trans)

lemma candidate_weights_identical:
  "identicalAlternatives X Y \<Longrightarrow>
   candidate_weights env ts is X = candidate_weights env ts is Y"
  by (simp add: identicalAlternatives_iff candidate_weights_def)

lemma examine_neither:
  assumes "candidate_weights env ts is alt = Some w" and "length ts = n" and "0 < n"
      and "length (lightweight st) = n" and "lightest st = Some c"
      and "\<not> lighter w (lightweight st)" and "\<not> lighter (lightweight st) w"
  shows "examine env n ts is alt index st
           = Inr (st\<lparr>queries := queries st @ [BestSequenceRoute (signature alt)],
                    ambiguity_alert := ambiguity_alert st \<or> \<not> identicalAlternatives c alt\<rparr>)"
proof -
  from candidate_weights_routes [OF assms(1)] obtain needed where
    n: "bestSequenceRoute (bestSingleRoute env) ts is (signature alt) = Some needed"
       "w = rememberWeights needed is" "length needed = length ts" "length is = length ts"
       "length (signature alt) = length ts" "length w = length ts" by blast
  let ?b = "\<exists>p<n. w ! p < lightweight st ! p" and ?wo = "\<exists>p<n. lightweight st ! p < w ! p"
  from assms(6) n(6) assms(2,4) have "?wo \<or> \<not> ?b"
    by (auto simp: lighter_def not_le)
  moreover from assms(7) n(6) assms(2,4) have "?b \<or> \<not> ?wo"
    by (auto simp: lighter_def not_le)
  ultimately have both: "?b = ?wo" by blast
  have ne: "lightweight st \<noteq> []" using assms(3,4) by auto
  have "compareAlternatives (lightweight st) needed is
          = Inr (if ?b then OL_AMBIGUOUS else OL_EQUIVALENT)"
    using n assms(2,4) both ne by (auto simp: compare_by_weights)
  with n assms(2,5) show ?thesis
    by (auto simp: examine_tie)
qed


lemma settledI:
  assumes "lightest st = Some c"
      and "candidate_weights env ts is c = Some (lightweight st)"
      and "\<forall>X\<in>set seen. \<not> dominates env ts is X c"
      and "seen = pre @ c # post"
      and "ambiguity_alert st \<or>
           (\<forall>X\<in>set post. candidate_weights env ts is X = None \<or> dominates env ts is c X
                           \<or> identicalAlternatives c X)"
      and "(\<forall>X\<in>set pre. candidate_weights env ts is X = None) \<or>
           (\<exists>L\<in>set pre. dominates env ts is c L \<and> (\<forall>X\<in>set pre. \<not> dominates env ts is X L))"
  shows "settled env ts is seen st"
  unfolding settled_def using assms(1,2,3) assms(4,5,6) by (simp only: option.case) blast

lemma settledE:
  assumes "settled env ts is seen st" and "lightest st = Some c"
  obtains pre post where
      "candidate_weights env ts is c = Some (lightweight st)"
      "\<forall>X\<in>set seen. \<not> dominates env ts is X c"
      "seen = pre @ c # post"
      "ambiguity_alert st \<or>
           (\<forall>X\<in>set post. candidate_weights env ts is X = None \<or> dominates env ts is c X
                           \<or> identicalAlternatives c X)"
      "(\<forall>X\<in>set pre. candidate_weights env ts is X = None) \<or>
           (\<exists>L\<in>set pre. dominates env ts is c L \<and> (\<forall>X\<in>set pre. \<not> dominates env ts is X L))"
  using assms unfolding settled_def by (simp only: option.case) blast

lemma examine_settled:
  assumes ok: "champion_ok env n ts is seen st" and inv: "settled env ts is seen st"
      and len: "length ts = n" and pos: "0 < n"
      and slip: "\<forall>w. candidate_weights env ts is alt = Some w \<longrightarrow> (\<exists>p<n. isPossible (w ! p))"
      and ex: "examine env n ts is alt index st = Inr st'"
  shows "settled env ts is (seen @ [alt]) st'"
proof (cases "candidate_weights env ts is alt")
  case None
  from examine_not_applicable [OF None, of n index st] ex obtain q where
    st': "st' = st\<lparr>queries := q\<rparr>" by auto
  show ?thesis
  proof (cases "lightest st")
    case no: None
    with inv have "\<forall>X\<in>set seen. candidate_weights env ts is X = None"
      by (simp add: settled_def)
    with None have "\<forall>X\<in>set (seen @ [alt]). candidate_weights env ts is X = None"
      by simp
    with no st' show ?thesis by (simp add: settled_def)
  next
    case (Some c)
    from settledE [OF inv Some] obtain pre post where
      cw: "candidate_weights env ts is c = Some (lightweight st)" and
      mn: "\<forall>X\<in>set seen. \<not> dominates env ts is X c" and
      sp: "seen = pre @ c # post" and
      p1: "ambiguity_alert st \<or>
           (\<forall>X\<in>set post. candidate_weights env ts is X = None \<or> dominates env ts is c X
                           \<or> identicalAlternatives c X)" and
      p2: "(\<forall>X\<in>set pre. candidate_weights env ts is X = None) \<or>
           (\<exists>L\<in>set pre. dominates env ts is c L \<and> (\<forall>X\<in>set pre. \<not> dominates env ts is X L))"
      by blast
    have na: "\<not> dominates env ts is alt c"
      using None by (simp add: dominates_def)
    show ?thesis
    proof (rule settledI [where c = c and pre = pre and post = "post @ [alt]"])
      show "lightest st' = Some c" using Some st' by simp
      show "candidate_weights env ts is c = Some (lightweight st')" using cw st' by simp
      show "\<forall>X\<in>set (seen @ [alt]). \<not> dominates env ts is X c" using mn na by simp
      show "seen @ [alt] = pre @ c # post @ [alt]" using sp by simp
      show "ambiguity_alert st' \<or>
           (\<forall>X\<in>set (post @ [alt]). candidate_weights env ts is X = None \<or> dominates env ts is c X
                           \<or> identicalAlternatives c X)"
        using p1 None st' by auto
      show "(\<forall>X\<in>set pre. candidate_weights env ts is X = None) \<or>
           (\<exists>L\<in>set pre. dominates env ts is c L \<and> (\<forall>X\<in>set pre. \<not> dominates env ts is X L))"
        by (rule p2)
    qed
  qed
next
  case (Some w)
  from ok have lens: "length (lightweight st) = n" "length (lightroutes st) = n"
    by (simp_all add: champion_ok_def)
  from candidate_weights_length [OF Some] len have lw: "length w = n" by simp
  show ?thesis
  proof (cases "lightest st")
    case None
    with ok have blank: "lightweight st = replicate n INFINITE"
      by (simp add: champion_ok_def)
    from slip Some obtain p where p: "p < n" "isPossible (w ! p)" by blast
    have le: "\<forall>p<n. w ! p \<le> lightweight st ! p"
      by (simp add: blank INFINITE_def)
    have lt: "\<exists>p<n. w ! p < lightweight st ! p"
      using p by (auto simp: blank isPossible_def)
    from examine_lighter [OF Some len lens le lt, of index] ex
    have st': "lightest st' = Some alt" "lightweight st' = w" "\<not> ambiguity_alert st'"
      by auto
    from inv None have none: "\<forall>X\<in>set seen. candidate_weights env ts is X = None"
      by (simp add: settled_def)
    show ?thesis
    proof (rule settledI [where c = alt and pre = seen and post = "[]"])
      show "lightest st' = Some alt" by (rule st')
      show "candidate_weights env ts is alt = Some (lightweight st')" using Some st' by simp
      show "\<forall>X\<in>set (seen @ [alt]). \<not> dominates env ts is X alt"
        using none Some by (auto simp: dominates_def lighter_irrefl)
      show "seen @ [alt] = seen @ alt # []" by simp
      show "ambiguity_alert st' \<or>
           (\<forall>X\<in>set []. candidate_weights env ts is X = None \<or> dominates env ts is alt X
                           \<or> identicalAlternatives alt X)" by simp
      show "(\<forall>X\<in>set seen. candidate_weights env ts is X = None) \<or>
           (\<exists>L\<in>set seen. dominates env ts is alt L \<and> (\<forall>X\<in>set seen. \<not> dominates env ts is X L))"
        using none by simp
    qed
  next
    case champion: (Some c)
    from settledE [OF inv champion] obtain pre post where
      cw: "candidate_weights env ts is c = Some (lightweight st)" and
      mn: "\<forall>X\<in>set seen. \<not> dominates env ts is X c" and
      sp: "seen = pre @ c # post" and
      p1: "ambiguity_alert st \<or>
           (\<forall>X\<in>set post. candidate_weights env ts is X = None \<or> dominates env ts is c X
                           \<or> identicalAlternatives c X)" and
      p2: "(\<forall>X\<in>set pre. candidate_weights env ts is X = None) \<or>
           (\<exists>L\<in>set pre. dominates env ts is c L \<and> (\<forall>X\<in>set pre. \<not> dominates env ts is X L))"
      by blast
    have dom_alt_c: "dominates env ts is alt c = lighter w (lightweight st)"
      and dom_c_alt: "dominates env ts is c alt = lighter (lightweight st) w"
      using Some cw by (simp_all add: dominates_def)
    consider (better) "lighter w (lightweight st)"
      | (worse) "lighter (lightweight st) w"
      | (neither) "\<not> lighter w (lightweight st)" "\<not> lighter (lightweight st) w"
      by blast
    then show ?thesis
    proof cases
      case better
      then have le: "\<forall>p<n. w ! p \<le> lightweight st ! p" and lt: "\<exists>p<n. w ! p < lightweight st ! p"
        using lw by (auto simp: lighter_def)
      from examine_lighter [OF Some len lens le lt, of index] ex
      have st': "lightest st' = Some alt" "lightweight st' = w" "\<not> ambiguity_alert st'"
        by auto
      have dac: "dominates env ts is alt c" using better dom_alt_c by simp
      have mn': "\<forall>X\<in>set (seen @ [alt]). \<not> dominates env ts is X alt"
      proof
        fix X assume X: "X \<in> set (seen @ [alt])"
        show "\<not> dominates env ts is X alt"
        proof
          assume d: "dominates env ts is X alt"
          from dominates_trans [OF d dac] have dc: "dominates env ts is X c" .
          from X consider "X \<in> set seen" | "X = alt" by auto
          then show False
          proof cases
            case 1
            with mn dc show False by blast
          next
            case 2
            with d Some show False by (simp add: dominates_def lighter_irrefl)
          qed
        qed
      qed
      have c_in: "c \<in> set seen" using sp by simp
      show ?thesis
      proof (rule settledI [where c = alt and pre = seen and post = "[]"])
        show "lightest st' = Some alt" by (rule st')
        show "candidate_weights env ts is alt = Some (lightweight st')" using Some st' by simp
        show "\<forall>X\<in>set (seen @ [alt]). \<not> dominates env ts is X alt" by (rule mn')
        show "seen @ [alt] = seen @ alt # []" by simp
        show "ambiguity_alert st' \<or>
           (\<forall>X\<in>set []. candidate_weights env ts is X = None \<or> dominates env ts is alt X
                           \<or> identicalAlternatives alt X)" by simp
        show "(\<forall>X\<in>set seen. candidate_weights env ts is X = None) \<or>
           (\<exists>L\<in>set seen. dominates env ts is alt L \<and> (\<forall>X\<in>set seen. \<not> dominates env ts is X L))"
          using c_in dac mn by blast
      qed
    next
      case worse
      then have le: "\<forall>p<n. lightweight st ! p \<le> w ! p" and lt: "\<exists>p<n. lightweight st ! p < w ! p"
        using lens by (auto simp: lighter_def)
      from examine_heavier [OF Some len lens(1) le lt, of index] ex
      have st': "st' = st\<lparr>queries := queries st @ [BestSequenceRoute (signature alt)]\<rparr>"
        by simp
      have na: "\<not> dominates env ts is alt c"
        using worse dom_alt_c lighter_asym by blast
      have dca: "dominates env ts is c alt" using worse dom_c_alt by simp
      show ?thesis
      proof (rule settledI [where c = c and pre = pre and post = "post @ [alt]"])
        show "lightest st' = Some c" using champion st' by simp
        show "candidate_weights env ts is c = Some (lightweight st')" using cw st' by simp
        show "\<forall>X\<in>set (seen @ [alt]). \<not> dominates env ts is X c" using mn na by simp
        show "seen @ [alt] = pre @ c # post @ [alt]" using sp by simp
        show "ambiguity_alert st' \<or>
           (\<forall>X\<in>set (post @ [alt]). candidate_weights env ts is X = None \<or> dominates env ts is c X
                           \<or> identicalAlternatives c X)"
          using p1 dca st' by auto
        show "(\<forall>X\<in>set pre. candidate_weights env ts is X = None) \<or>
           (\<exists>L\<in>set pre. dominates env ts is c L \<and> (\<forall>X\<in>set pre. \<not> dominates env ts is X L))"
          by (rule p2)
      qed
    next
      case neither
      from examine_neither [OF Some len pos lens(1) champion neither, of index] ex
      have st': "st' = st\<lparr>queries := queries st @ [BestSequenceRoute (signature alt)],
                    ambiguity_alert := ambiguity_alert st \<or> \<not> identicalAlternatives c alt\<rparr>"
        by simp
      have na: "\<not> dominates env ts is alt c"
        using neither dom_alt_c by simp
      show ?thesis
      proof (rule settledI [where c = c and pre = pre and post = "post @ [alt]"])
        show "lightest st' = Some c" using champion st' by simp
        show "candidate_weights env ts is c = Some (lightweight st')" using cw st' by simp
        show "\<forall>X\<in>set (seen @ [alt]). \<not> dominates env ts is X c" using mn na by simp
        show "seen @ [alt] = pre @ c # post @ [alt]" using sp by simp
        show "ambiguity_alert st' \<or>
           (\<forall>X\<in>set (post @ [alt]). candidate_weights env ts is X = None \<or> dominates env ts is c X
                           \<or> identicalAlternatives c X)"
          using p1 st' by auto
        show "(\<forall>X\<in>set pre. candidate_weights env ts is X = None) \<or>
           (\<exists>L\<in>set pre. dominates env ts is c L \<and> (\<forall>X\<in>set pre. \<not> dominates env ts is X L))"
          by (rule p2)
      qed
    qed
  qed
qed

lemma tournament_settled:
  assumes "\<forall>C\<in>set xs. \<forall>wC. candidate_weights env ts is C = Some wC \<longrightarrow>
             (\<exists>p<n. isPossible (wC ! p))"
      and "champion_ok env n ts is seen st" and "settled env ts is seen st"
      and "length seen = index" and "length ts = n" and "0 < n"
  shows "\<exists>st'. tournament env n ts is xs index st = Inr st'
               \<and> champion_ok env n ts is (seen @ xs) st' \<and> settled env ts is (seen @ xs) st'"
  using assms
proof (induction xs arbitrary: seen index st)
  case Nil
  then show ?case by simp
next
  case (Cons X xs)
  have slip: "\<forall>wX. candidate_weights env ts is X = Some wX \<longrightarrow> (\<exists>p<n. isPossible (wX ! p))"
    using Cons.prems(1) by simp
  from examine_total [OF Cons.prems(2,5) slip, of index] obtain st1 where
    ex: "examine env n ts is X index st = Inr st1" by blast
  have ok1: "champion_ok env n ts is (seen @ [X]) st1"
    using examine_champion_ok [OF Cons.prems(2,4) ex] .
  have inv1: "settled env ts is (seen @ [X]) st1"
    using examine_settled [OF Cons.prems(2,3,5,6) slip ex] .
  have rest: "\<forall>C\<in>set xs. \<forall>wC. candidate_weights env ts is C = Some wC \<longrightarrow>
             (\<exists>p<n. isPossible (wC ! p))"
    using Cons.prems(1) by simp
  from Cons.IH [OF rest ok1 inv1 _ Cons.prems(5,6), of "Suc index"] Cons.prems(4) ex
  show ?case by simp
qed


lemma initial_settled: "settled env ts is [] (initial n)"
  by (simp add: settled_def initial_def)

lemma dominates_irrefl: "\<not> dominates env ts is X X"
  by (auto simp: dominates_def lighter_irrefl split: option.splits)

lemma dominates_minimal:
  assumes "X \<in> set alts" and "P X"
  shows "\<exists>M\<in>set alts. P M \<and> (\<forall>Y\<in>set alts. dominates env ts is Y M \<longrightarrow> \<not> P Y)"
proof -
  let ?r = "{(Y, M). Y \<in> set alts \<and> M \<in> set alts \<and> dominates env ts is Y M}"
  have "?r \<subseteq> set alts \<times> set alts" by auto
  then have fin: "finite ?r" by (rule finite_subset) simp
  have tr: "trans ?r"
    by (rule transI) (auto intro: dominates_trans)
  have "acyclic ?r"
    unfolding acyclic_def using tr by (auto simp: trancl_id dominates_irrefl)
  with fin have "wf ?r" by (rule finite_acyclic_wf)
  from wfE_min [OF this, of X "{M \<in> set alts. P M}"] assms
  obtain M where "M \<in> {M \<in> set alts. P M}"
    and "\<And>Y. (Y, M) \<in> ?r \<Longrightarrow> Y \<notin> {M \<in> set alts. P M}" by blast
  then show ?thesis by blast
qed


lemma ambiguous_in_this_order:
  fixes env :: "('w::{linorder,order_top}) Environment" and actual :: "scripting_element list"
  defines "ts \<equiv> map (detectType env) actual" and "is \<equiv> map (detectInsight env) actual"
  assumes "length actual \<le> 12"
      and "A \<in> set (m_alternatives S)" and "B \<in> set (m_alternatives S)"
      and "\<not> identicalAlternatives A B"
      and "candidate_weights env ts is A = Some w"
      and "bestSequenceRoute (bestSingleRoute env) ts is (signature B) = Some rB"
      and "compareAlternatives w rB is = Inr OL_EQUIVALENT"
      and "\<forall>C\<in>set (m_alternatives S). \<forall>wC. candidate_weights env ts is C = Some wC \<longrightarrow>
             (\<exists>p<length actual. isPossible (wC ! p))"
      and "\<forall>M\<in>set (m_alternatives S). \<forall>wM.
             candidate_weights env ts is M = Some wM
             \<and> (\<forall>Z\<in>set (m_alternatives S). \<not> dominates env ts is Z M)
             \<longrightarrow> conversionPossible wM"
      and "\<forall>L\<in>set (m_alternatives S). (\<exists>Z\<in>set (m_alternatives S). dominates env ts is Z L) \<longrightarrow>
             (\<exists>M1\<in>set (m_alternatives S). \<exists>M2\<in>set (m_alternatives S).
                dominates env ts is M1 L \<and> dominates env ts is M2 L
                \<and> \<not> identicalAlternatives M1 M2)"
      and "cache_consistent env S cache"
  shows "outcome (call env S cache actual) = Inl OverloadingAmbiguity"
proof -
  let ?n = "length actual" and ?alts = "m_alternatives S"
  have len: "length ts = ?n" by (simp add: ts_def)
  have lw: "length w = ?n"
    using candidate_weights_length [OF assms(7)] len by simp
  from equivalent_weights [OF assms(8) _ assms(9)] lw len
  have cwB: "candidate_weights env ts is B = Some w" and ne: "w \<noteq> []" by simp_all
  with lw have pos: "0 < ?n" by auto
  have sig: "signature A \<noteq> signature B"
    using assms(6) by (simp add: identicalAlternatives_iff)
  from tournament_settled [OF assms(10) initial_champion_ok initial_settled _ len pos, of 0]
  obtain st where
    t: "tournament env ?n ts is ?alts 0 (initial ?n) = Inr st" and
    inv: "settled env ts is ?alts st"
    by fastforce
  have "lightest st \<noteq> None"
  proof
    assume "lightest st = None"
    with inv have "\<forall>X\<in>set ?alts. candidate_weights env ts is X = None"
      by (simp add: settled_def)
    with assms(4,7) show False by auto
  qed
  then obtain c where c: "lightest st = Some c" by auto
  from settledE [OF inv c] obtain pre post where
    cw: "candidate_weights env ts is c = Some (lightweight st)" and
    mn: "\<forall>X\<in>set ?alts. \<not> dominates env ts is X c" and
    sp: "?alts = pre @ c # post" and
    p1: "ambiguity_alert st \<or>
         (\<forall>X\<in>set post. candidate_weights env ts is X = None \<or> dominates env ts is c X
                         \<or> identicalAlternatives c X)" and
    p2: "(\<forall>X\<in>set pre. candidate_weights env ts is X = None) \<or>
         (\<exists>L\<in>set pre. dominates env ts is c L \<and> (\<forall>X\<in>set pre. \<not> dominates env ts is X L))"
    by blast
  have c_in: "c \<in> set ?alts" using sp by simp
  from assms(11) c_in cw mn have possible: "conversionPossible (lightweight st)" by blast
  have alert: "ambiguity_alert st"
  proof (rule ccontr)
    assume "\<not> ambiguity_alert st"
    with p1 have harmless: "\<forall>X\<in>set post. candidate_weights env ts is X = None
                              \<or> dominates env ts is c X \<or> identicalAlternatives c X" by simp
    \<comment> \<open>an alternative examined from the champion on is dominated by it or identical to it\<close>
    have after: "dominates env ts is c U \<or> signature c = signature U"
      if "U \<in> set ?alts" "U \<notin> set pre" "candidate_weights env ts is U \<noteq> None" for U
    proof -
      from that(1,2) sp consider "U = c" | "U \<in> set post" by auto
      then show ?thesis
      proof cases
        case 1
        then show ?thesis by simp
      next
        case 2
        with harmless that(3) show ?thesis
          by (auto simp: identicalAlternatives_iff)
      qed
    qed
    \<comment> \<open>the champion dominates an alternative that none before the champion dominates\<close>
    have "\<exists>L\<in>set ?alts. dominates env ts is c L \<and> (\<forall>X\<in>set pre. \<not> dominates env ts is X L)"
      using p2
    proof
      assume none: "\<forall>X\<in>set pre. candidate_weights env ts is X = None"
      then have nodom: "\<forall>X\<in>set pre. \<not> dominates env ts is X A"
        by (auto simp: dominates_def)
      from none assms(7) have "A \<notin> set pre" by auto
      from after [OF assms(4) this] assms(7)
      have a: "dominates env ts is c A \<or> signature c = signature A" by simp
      from none cwB have "B \<notin> set pre" by auto
      from after [OF assms(5) this] cwB
      have b: "dominates env ts is c B \<or> signature c = signature B" by simp
      have domA: "dominates env ts is c A = lighter (lightweight st) w"
        and domB: "dominates env ts is c B = lighter (lightweight st) w"
        using cw assms(7) cwB by (simp_all add: dominates_def)
      have "dominates env ts is c A"
      proof (rule ccontr)
        assume n: "\<not> dominates env ts is c A"
        with a have s: "signature c = signature A" by simp
        then have "candidate_weights env ts is c = candidate_weights env ts is A"
          by (simp add: candidate_weights_def)
        with cw assms(7) have "lightweight st = w" by simp
        with n domA domB b s sig show False by simp
      qed
      with nodom assms(4) show ?thesis by blast
    next
      assume "\<exists>L\<in>set pre. dominates env ts is c L \<and> (\<forall>X\<in>set pre. \<not> dominates env ts is X L)"
      with sp show ?thesis by auto
    qed
    then obtain L where L: "L \<in> set ?alts" "dominates env ts is c L"
      "\<forall>X\<in>set pre. \<not> dominates env ts is X L" by blast
    \<comment> \<open>a lightest one among the dominated alternatives that are \<open>L\<close> or dominate it\<close>
    define P where
      "P = (\<lambda>Y. (Y = L \<or> dominates env ts is Y L) \<and> (\<exists>Z\<in>set ?alts. dominates env ts is Z Y))"
    have "P L" using L(2) c_in unfolding P_def by blast
    from dominates_minimal [of L ?alts P, OF L(1) this] obtain X where
      X0: "X \<in> set ?alts" "P X" "\<forall>Y\<in>set ?alts. dominates env ts is Y X \<longrightarrow> \<not> P Y"
      by blast
    from X0(1,2) have X: "X \<in> set ?alts" "X = L \<or> dominates env ts is X L"
         "\<exists>Z\<in>set ?alts. dominates env ts is Z X" unfolding P_def by simp_all
    note X4 = X0(3)
    have same: "signature c = signature Y" if "Y \<in> set ?alts" "dominates env ts is Y X" for Y
    proof -
      from that(2) X(2) have yl: "dominates env ts is Y L"
        by (auto intro: dominates_trans)
      with L(3) have "Y \<notin> set pre" by blast
      moreover from that(2) have "candidate_weights env ts is Y \<noteq> None"
        by (simp add: dominates_applicable)
      moreover have "\<not> dominates env ts is c Y"
      proof
        assume "dominates env ts is c Y"
        with c_in yl have "P Y" unfolding P_def by blast
        with X4 that show False by blast
      qed
      ultimately show ?thesis
        using after [OF that(1)] by simp
    qed
    from assms(12) X(1,3) obtain M1 M2 where
      "M1 \<in> set ?alts" "M2 \<in> set ?alts" "dominates env ts is M1 X" "dominates env ts is M2 X"
      "\<not> identicalAlternatives M1 M2" by blast
    with same [of M1] same [of M2] show False
      by (simp add: identicalAlternatives_iff)
  qed
  from alert c possible have "verdict st = Some OverloadingAmbiguity"
    by (simp add: verdict_def)
  from call_fails_with_verdict(1) [OF assms(3,13) t [unfolded ts_def is_def] this]
  show ?thesis .
qed

lemma call_ambiguity_verdict:
  assumes "outcome (call env S cache actual) = Inl OverloadingAmbiguity"
  shows "\<exists>st. tournament env (length actual) (map (detectType env) actual)
               (map (detectInsight env) actual) (m_alternatives S) 0 (initial (length actual))
             = Inr st
            \<and> verdict st = Some OverloadingAmbiguity"
proof -
  have le: "\<not> length actual > ARGUMENT_ARRAY_LIMIT"
    using assms by (auto simp: call_def split: if_splits)
  obtain r cache' ev where loc: "locate env S cache actual = (r, cache', ev)"
    by (cases "locate env S cache actual")
  have "r = Inl OverloadingAmbiguity"
  proof (cases r)
    case (Inl e)
    with assms loc le show ?thesis by (simp add: call_def)
  next
    case (Inr found)
    obtain m converted gc where found: "found = (m, converted, gc)" by (cases found)
    obtain result ev' gc' where inv: "invoke env m converted gc = (result, ev', gc')"
      by (cases "invoke env m converted gc")
    from assms loc le Inr found inv invoke_events(4) [OF inv] show ?thesis
      by (simp add: call_def)
  qed
  with loc locate_not_ambiguity [of env S cache actual cache' ev] show ?thesis by simp
qed

lemma examine_first:
  assumes "candidate_weights env ts is alt = Some w" and "length ts = n"
      and "\<exists>p<n. isPossible (w ! p)"
  shows "\<exists>st'. examine env n ts is alt index (initial n) = Inr st'
               \<and> lightest st' = Some alt \<and> lightweight st' = w \<and> \<not> ambiguity_alert st'"
proof -
  have le: "\<forall>p<n. w ! p \<le> lightweight (initial n :: 'a Selection) ! p"
    by (simp add: initial_weight_nth INFINITE_def)
  have lt: "\<exists>p<n. w ! p < lightweight (initial n :: 'a Selection) ! p"
    using assms(3) by (auto simp: initial_weight_nth isPossible_def)
  from examine_lighter [OF assms(1,2) initial_lengths le lt, of index] show ?thesis
    by simp
qed

lemma examine_first_impossible:
  assumes "candidate_weights env ts is alt = Some w" and "length ts = n" and "0 < n"
      and "\<forall>p<n. \<not> isPossible (w ! p)"
  shows "examine env n ts is alt index (initial n) = Inl InvalidAccess"
proof -
  from candidate_weights_routes [OF assms(1)] obtain needed where
    n: "bestSequenceRoute (bestSingleRoute env) ts is (signature alt) = Some needed"
       "w = rememberWeights needed is" "length needed = length ts" "length is = length ts"
       "length (signature alt) = length ts" "length w = length ts" by blast
  have top: "\<forall>p<n. w ! p = INFINITE"
    using assms(4) by (auto simp: isPossible_def INFINITE_def not_less top_unique)
  have "compareAlternatives (lightweight (initial n :: 'a Selection)) needed is = Inr OL_EQUIVALENT"
    using n assms(2,3) top
    by (auto simp: compare_by_weights [of _ needed "is"] initial_def)
  with n assms(2) show ?thesis
    by (simp add: examine_tie [where v = OL_EQUIVALENT] initial_def)
qed

lemma tournament_keeps_champion:
  assumes "lightest st = Some c" and "candidate_weights env ts is c = Some (lightweight st)"
      and "length ts = n" and "0 < n"
      and "\<forall>X\<in>set xs. \<not> dominates env ts is X c"
  shows "\<exists>st'. tournament env n ts is xs index st = Inr st'
               \<and> lightest st' = Some c \<and> lightweight st' = lightweight st
               \<and> (ambiguity_alert st' \<longrightarrow> ambiguity_alert st
                    \<or> (\<exists>X\<in>set xs. candidate_weights env ts is X \<noteq> None
                                   \<and> \<not> dominates env ts is c X \<and> \<not> identicalAlternatives c X))"
  using assms
proof (induction xs arbitrary: index st)
  case Nil
  then show ?case by simp
next
  case (Cons X xs)
  from candidate_weights_length [OF Cons.prems(2)] Cons.prems(3)
  have ll: "length (lightweight st) = n" by simp
  have "\<exists>st1. examine env n ts is X index st = Inr st1
             \<and> lightest st1 = Some c \<and> lightweight st1 = lightweight st
             \<and> (ambiguity_alert st1 \<longrightarrow> ambiguity_alert st
                  \<or> (candidate_weights env ts is X \<noteq> None
                      \<and> \<not> dominates env ts is c X \<and> \<not> identicalAlternatives c X))"
  proof (cases "candidate_weights env ts is X")
    case None
    from examine_not_applicable [OF None, of n index st] Cons.prems(1)
    show ?thesis by auto
  next
    case (Some w)
    have dXc: "dominates env ts is X c = lighter w (lightweight st)"
      and dcX: "dominates env ts is c X = lighter (lightweight st) w"
      using Some Cons.prems(2) by (simp_all add: dominates_def)
    from Cons.prems(5) dXc have nb: "\<not> lighter w (lightweight st)" by simp
    show ?thesis
    proof (cases "lighter (lightweight st) w")
      case True
      then have le: "\<forall>p<n. lightweight st ! p \<le> w ! p" and lt: "\<exists>p<n. lightweight st ! p < w ! p"
        using ll by (auto simp: lighter_def)
      from examine_heavier [OF Some Cons.prems(3) ll le lt, of index] Cons.prems(1)
      show ?thesis by simp
    next
      case False
      from examine_neither [OF Some Cons.prems(3,4) ll Cons.prems(1) nb False, of index]
           Some dcX False Cons.prems(1)
      show ?thesis by simp
    qed
  qed
  then obtain st1 where
    ex: "examine env n ts is X index st = Inr st1" and
    s1: "lightest st1 = Some c" "lightweight st1 = lightweight st" and
    a1: "ambiguity_alert st1 \<longrightarrow> ambiguity_alert st
           \<or> (candidate_weights env ts is X \<noteq> None
               \<and> \<not> dominates env ts is c X \<and> \<not> identicalAlternatives c X)"
    by blast
  have cw1: "candidate_weights env ts is c = Some (lightweight st1)"
    using Cons.prems(2) s1 by simp
  have rest: "\<forall>X\<in>set xs. \<not> dominates env ts is X c"
    using Cons.prems(5) by simp
  from Cons.IH [OF s1(1) cw1 Cons.prems(3,4) rest, of "Suc index"] obtain st' where
    t: "tournament env n ts is xs (Suc index) st1 = Inr st'" and
    s': "lightest st' = Some c" "lightweight st' = lightweight st1" and
    a': "ambiguity_alert st' \<longrightarrow> ambiguity_alert st1
           \<or> (\<exists>X\<in>set xs. candidate_weights env ts is X \<noteq> None
                          \<and> \<not> dominates env ts is c X \<and> \<not> identicalAlternatives c X)"
    by blast
  have "tournament env n ts is (X # xs) index st = Inr st'"
    using ex t by simp
  moreover have "ambiguity_alert st' \<longrightarrow> ambiguity_alert st
           \<or> (\<exists>Y\<in>set (X # xs). candidate_weights env ts is Y \<noteq> None
                          \<and> \<not> dominates env ts is c Y \<and> \<not> identicalAlternatives c Y)"
    using a1 a' by auto
  ultimately show ?case
    using s' s1 by (intro exI [of _ st'] conjI) simp_all
qed


lemma examine_adopts:
  assumes "candidate_weights env ts is alt = Some w" and "length ts = n"
      and "length (lightweight st) = n" and "lighter w (lightweight st)"
  shows "\<exists>st'. examine env n ts is alt index st = Inr st'
               \<and> lightest st' = Some alt \<and> lightweight st' = w \<and> \<not> ambiguity_alert st'"
proof -
  from candidate_weights_routes [OF assms(1)] obtain needed where
    n: "bestSequenceRoute (bestSingleRoute env) ts is (signature alt) = Some needed"
       "w = rememberWeights needed is" "length needed = length ts" "length is = length ts"
       "length (signature alt) = length ts" by blast
  from assms(3,4) have le: "\<forall>p<n. w ! p \<le> lightweight st ! p"
    and lt: "\<exists>p<n. w ! p < lightweight st ! p"
    by (auto simp: lighter_def)
  have "\<not> (\<exists>p<n. lightweight st ! p < w ! p)"
    using le by (auto simp: not_less)
  with assms(2,3) lt n have "compareAlternatives (lightweight st) needed is = Inr OL_BETTER"
    by (auto simp: compare_by_weights)
  with n assms(2) show ?thesis
    by (simp add: examine_better)
qed

lemma mset_remove1_add: "x \<in> set xs \<Longrightarrow> add_mset x (mset (remove1 x xs)) = mset xs"
  by (induction xs) auto

lemma not_ambiguity_by_run:
  assumes "tournament env (length actual) (map (detectType env) actual)
             (map (detectInsight env) actual) (m_alternatives S) 0 (initial (length actual)) = r"
      and "\<forall>st. r = Inr st \<longrightarrow> verdict st \<noteq> Some OverloadingAmbiguity"
  shows "outcome (call env S cache actual) \<noteq> Inl OverloadingAmbiguity"
  using call_ambiguity_verdict [of env S cache actual] assms by auto

lemma some_order_is_not_ambiguous:
  fixes env :: "('w::{linorder,order_top}) Environment" and actual :: "scripting_element list"
  defines "ts \<equiv> map (detectType env) actual" and "is \<equiv> map (detectInsight env) actual"
  assumes "0 < length actual"
      and "\<not> ((\<forall>C\<in>set alts. \<forall>wC. candidate_weights env ts is C = Some wC \<longrightarrow>
                (\<exists>p<length actual. isPossible (wC ! p)))
             \<and> (\<forall>M\<in>set alts. \<forall>wM.
                  candidate_weights env ts is M = Some wM
                  \<and> (\<forall>Z\<in>set alts. \<not> dominates env ts is Z M)
                  \<longrightarrow> conversionPossible wM)
             \<and> (\<forall>L\<in>set alts. (\<exists>Z\<in>set alts. dominates env ts is Z L) \<longrightarrow>
                  (\<exists>M1\<in>set alts. \<exists>M2\<in>set alts.
                     dominates env ts is M1 L \<and> dominates env ts is M2 L
                     \<and> \<not> identicalAlternatives M1 M2)))"
  shows "\<exists>ys. mset ys = mset alts
              \<and> outcome (call env \<lparr>this_set = me, m_alternatives = ys\<rparr> cache actual)
                  \<noteq> Inl OverloadingAmbiguity"
proof -
  let ?n = "length actual"
  have len: "length ts = ?n" by (simp add: ts_def)
  note pos = assms(3)
  consider
    (slip) X wX where "X \<in> set alts" "candidate_weights env ts is X = Some wX"
      "\<forall>p<?n. \<not> isPossible (wX ! p)"
  | (impossible) M wM where
      "\<forall>C\<in>set alts. \<forall>wC. candidate_weights env ts is C = Some wC \<longrightarrow>
         (\<exists>p<?n. isPossible (wC ! p))"
      "M \<in> set alts" "candidate_weights env ts is M = Some wM"
      "\<forall>Z\<in>set alts. \<not> dominates env ts is Z M" "\<not> conversionPossible wM"
  | (once) L Z where
      "\<forall>C\<in>set alts. \<forall>wC. candidate_weights env ts is C = Some wC \<longrightarrow>
         (\<exists>p<?n. isPossible (wC ! p))"
      "L \<in> set alts" "Z \<in> set alts" "dominates env ts is Z L"
      "\<forall>M1\<in>set alts. \<forall>M2\<in>set alts. dominates env ts is M1 L \<and> dominates env ts is M2 L
         \<longrightarrow> identicalAlternatives M1 M2"
    using assms(4) by blast
  then show ?thesis
  proof cases
    case slip
    let ?ys = "X # remove1 X alts"
    have perm: "mset ?ys = mset alts" using mset_remove1_add [OF slip(1)] by simp
    have "tournament env ?n ts is ?ys 0 (initial ?n) = Inl InvalidAccess"
      using examine_first_impossible [OF slip(2) len pos slip(3), of 0] by simp
    from not_ambiguity_by_run [of env actual "\<lparr>this_set = me, m_alternatives = ?ys\<rparr>", OF _ ,
           of "Inl InvalidAccess" cache] this
    have "outcome (call env \<lparr>this_set = me, m_alternatives = ?ys\<rparr> cache actual)
            \<noteq> Inl OverloadingAmbiguity"
      by (simp add: ts_def is_def)
    with perm show ?thesis by blast
  next
    case impossible
    let ?ys = "M # remove1 M alts"
    have perm: "mset ?ys = mset alts" using mset_remove1_add [OF impossible(2)] by simp
    from impossible(1,2,3) have "\<exists>p<?n. isPossible (wM ! p)" by blast
    from examine_first [OF impossible(3) len this, of 0] obtain s1 where
      e1: "examine env ?n ts is M 0 (initial ?n) = Inr s1" and
      s1: "lightest s1 = Some M" "lightweight s1 = wM" by blast
    have nodom: "\<forall>X\<in>set (remove1 M alts). \<not> dominates env ts is X M"
      using impossible(4) by (meson notin_set_remove1)
    have cw1: "candidate_weights env ts is M = Some (lightweight s1)"
      using impossible(3) s1 by simp
    from tournament_keeps_champion [OF s1(1) cw1 len pos nodom, of "Suc 0"] obtain s2 where
      t2: "tournament env ?n ts is (remove1 M alts) (Suc 0) s1 = Inr s2" and
      s2: "lightweight s2 = lightweight s1" by blast
    have run: "tournament env ?n ts is ?ys 0 (initial ?n) = Inr s2"
      using e1 t2 by simp
    have "verdict s2 \<noteq> Some OverloadingAmbiguity"
      using s2 s1 impossible(5) by (simp add: verdict_def)
    with not_ambiguity_by_run [of env actual "\<lparr>this_set = me, m_alternatives = ?ys\<rparr>", OF _ ,
           of "Inr s2" cache] run
    have "outcome (call env \<lparr>this_set = me, m_alternatives = ?ys\<rparr> cache actual)
            \<noteq> Inl OverloadingAmbiguity"
      by (simp add: ts_def is_def)
    with perm show ?thesis by blast
  next
    case once
    define good where
      "good = (\<lambda>X. candidate_weights env ts is X = None \<or> dominates env ts is Z X
                   \<or> identicalAlternatives Z X)"
    define rest where "rest = remove1 Z (remove1 L alts)"
    define rivals where "rivals = filter (\<lambda>X. \<not> good X) rest"
    define others where "others = filter good rest"
    let ?ys = "L # rivals @ Z # others"
    have neq: "Z \<noteq> L" using once(4) dominates_irrefl by metis
    have Zin: "Z \<in> set (remove1 L alts)" using once(3) neq by simp
    have "mset rivals + mset others = mset rest"
      unfolding rivals_def others_def by (induction rest) simp_all
    then have "mset ?ys = add_mset L (add_mset Z (mset rest))"
      by simp
    also have "\<dots> = add_mset L (mset (remove1 L alts))"
      unfolding rest_def by (simp only: mset_remove1_add [OF Zin])
    also have "\<dots> = mset alts"
      by (rule mset_remove1_add [OF once(2)])
    finally have perm: "mset ?ys = mset alts" .
    have sub: "set rest \<subseteq> set alts"
      unfolding rest_def by (meson notin_set_remove1 subsetI)
    from dominates_applicable [OF once(4)] obtain wZ wL where
      cwZ: "candidate_weights env ts is Z = Some wZ" and
      cwL: "candidate_weights env ts is L = Some wL" by auto
    \<comment> \<open>\<open>L\<close> is adopted first\<close>
    from once(1,2) cwL have "\<exists>p<?n. isPossible (wL ! p)" by blast
    from examine_first [OF cwL len this, of 0] obtain s1 where
      e1: "examine env ?n ts is L 0 (initial ?n) = Inr s1" and
      s1: "lightest s1 = Some L" "lightweight s1 = wL" by blast
    \<comment> \<open>it stays the champion while the rivals of \<open>Z\<close> are examined\<close>
    have nodom: "\<forall>X\<in>set rivals. \<not> dominates env ts is X L"
    proof
      fix X assume X: "X \<in> set rivals"
      show "\<not> dominates env ts is X L"
      proof
        assume "dominates env ts is X L"
        moreover from X sub have "X \<in> set alts" by (auto simp: rivals_def)
        ultimately have "identicalAlternatives Z X"
          using once(3,4,5) by blast
        with X show False by (simp add: rivals_def good_def)
      qed
    qed
    have cw1: "candidate_weights env ts is L = Some (lightweight s1)"
      using cwL s1 by simp
    from tournament_keeps_champion [OF s1(1) cw1 len pos nodom, of "Suc 0"] obtain s2 where
      t2: "tournament env ?n ts is rivals (Suc 0) s1 = Inr s2" and
      s2: "lightest s2 = Some L" "lightweight s2 = wL" using s1 by auto
    \<comment> \<open>then \<open>Z\<close> is adopted, and the flag cleared\<close>
    from once(4) cwZ cwL have lz: "lighter wZ wL" by (simp add: dominates_def)
    from candidate_weights_length [OF cwL] len have ll: "length (lightweight s2) = ?n"
      using s2 by simp
    from lz s2 have "lighter wZ (lightweight s2)" by simp
    from examine_adopts [OF cwZ len ll this, of "Suc (length rivals)"]
    have "\<exists>s3. examine env ?n ts is Z (Suc (length rivals)) s2 = Inr s3
              \<and> lightest s3 = Some Z \<and> lightweight s3 = wZ \<and> \<not> ambiguity_alert s3" .
    then obtain s3 where
      e3: "examine env ?n ts is Z (Suc (length rivals)) s2 = Inr s3" and
      s3: "lightest s3 = Some Z" "lightweight s3 = wZ" "\<not> ambiguity_alert s3" by blast
    \<comment> \<open>and nothing examined after it raises the flag\<close>
    have undom: "\<not> dominates env ts is Y Z" if "Y \<in> set alts" for Y
    proof
      assume d: "dominates env ts is Y Z"
      from dominates_trans [OF d once(4)] that once(3,4,5)
      have "identicalAlternatives Y Z" by blast
      from candidate_weights_identical [OF this, of env ts "is"] d
      show False by (auto simp: dominates_def lighter_irrefl split: option.splits)
    qed
    have nodom3: "\<forall>X\<in>set others. \<not> dominates env ts is X Z"
      using undom sub by (auto simp: others_def)
    have cw3: "candidate_weights env ts is Z = Some (lightweight s3)"
      using cwZ s3 by simp
    from tournament_keeps_champion [OF s3(1) cw3 len pos nodom3, of "Suc (Suc (length rivals))"]
    obtain s4 where
      t4: "tournament env ?n ts is others (Suc (Suc (length rivals))) s3 = Inr s4" and
      a4: "ambiguity_alert s4 \<longrightarrow> ambiguity_alert s3
             \<or> (\<exists>X\<in>set others. candidate_weights env ts is X \<noteq> None
                               \<and> \<not> dominates env ts is Z X \<and> \<not> identicalAlternatives Z X)"
      by blast
    have "\<not> ambiguity_alert s4"
      using a4 s3 by (auto simp: others_def good_def)
    then have v: "verdict s4 \<noteq> Some OverloadingAmbiguity"
      by (simp add: verdict_def)
    have run: "tournament env ?n ts is ?ys 0 (initial ?n) = Inr s4"
      using e1 t2 e3 t4 by (simp add: tournament_append)
    from v not_ambiguity_by_run [of env actual "\<lparr>this_set = me, m_alternatives = ?ys\<rparr>", OF _ ,
           of "Inr s4" cache] run
    have "outcome (call env \<lparr>this_set = me, m_alternatives = ?ys\<rparr> cache actual)
            \<noteq> Inl OverloadingAmbiguity"
      by (simp add: ts_def is_def)
    with perm show ?thesis by blast
  qed
qed


lemma ambiguous_in_every_order:
  fixes env :: "('w::{linorder,order_top}) Environment" and actual :: "scripting_element list"
  defines "ts \<equiv> map (detectType env) actual" and "is \<equiv> map (detectInsight env) actual"
  assumes "length actual \<le> 12"
      and "A \<in> set alts" and "B \<in> set alts"
      and "\<not> identicalAlternatives A B"
      and "candidate_weights env ts is A = Some w"
      and "bestSequenceRoute (bestSingleRoute env) ts is (signature B) = Some rB"
      and "compareAlternatives w rB is = Inr OL_EQUIVALENT"
      and "\<forall>C\<in>set alts. \<forall>wC. candidate_weights env ts is C = Some wC \<longrightarrow>
             (\<exists>p<length actual. isPossible (wC ! p))"
      and "\<forall>M\<in>set alts. \<forall>wM.
             candidate_weights env ts is M = Some wM
             \<and> (\<forall>Z\<in>set alts. \<not> dominates env ts is Z M)
             \<longrightarrow> conversionPossible wM"
      and "\<forall>L\<in>set alts. (\<exists>Z\<in>set alts. dominates env ts is Z L) \<longrightarrow>
             (\<exists>M1\<in>set alts. \<exists>M2\<in>set alts.
                dominates env ts is M1 L \<and> dominates env ts is M2 L
                \<and> \<not> identicalAlternatives M1 M2)"
      and "mset ys = mset alts"
      and "cache_consistent env \<lparr>this_set = me, m_alternatives = ys\<rparr> cache"
  shows "outcome (call env \<lparr>this_set = me, m_alternatives = ys\<rparr> cache actual)
           = Inl OverloadingAmbiguity"
proof -
  let ?S = "\<lparr>this_set = me, m_alternatives = ys\<rparr>"
  have "set ys = set alts"
    by (rule mset_eq_setD [OF assms(13)])
  then have s: "set alts = set (m_alternatives ?S)"
    by simp
  note a = assms(4,5,10,11,12) [unfolded s]
  from ambiguous_in_this_order [OF assms(3) a(1,2) assms(6) assms(7-9) [unfolded ts_def is_def]
         a(3-5) [unfolded ts_def is_def] assms(14)]
  show ?thesis .
qed

subsection \<open>Evaluating the example world\<close>

lemma finite_weights: "\<exists>i. enat i = 1" "\<exists>i. enat i = 0"
  unfolding one_enat_def zero_enat_def by blast+

lemmas resolution_defs = initial_def examine_def compareAlternatives_def rememberWeights_def
  INFINITE_def top_enat_def finite_weights isPossible_def verdict_def identicalAlternatives_def

lemmas call_defs = call_def locate_def Let_def recall_def remember_def detect_events_def
  ARGUMENT_ARRAY_LIMIT_def convertSequence_def invoke_def applyEdgeConversions_def cleanUp_def

subsection \<open>The cache stays consistent\<close>

text \<open>
  The empty cache is consistent with every set, and a call keeps the cache consistent with
  the set it is made on and with every set of another address.
\<close>

lemma empty_cache_consistent: "cache_consistent env S Map.empty"
  by (simp add: cache_consistent_def recall_def)

lemma locate_cache:
  assumes "locate env S cache actual = (r, cache', ev)"
  shows "cache' = cache
         \<or> (\<exists>st. tournament env (length actual) (map (detectType env) actual)
                   (map (detectInsight env) actual) (m_alternatives S) 0
                   (initial (length actual)) = Inr st
                 \<and> verdict st = None
                 \<and> cache' = remember cache (this_set S) (length actual)
                              (map (detectType env) actual) (map (detectInsight env) actual)
                              (cached_alt st))"
  using assms
  by (auto simp: locate_def Let_def split: option.splits sum.splits if_splits prod.splits)

lemma call_cache:
  "cache_after (call env S cache actual) = cache
   \<or> (\<exists>st. tournament env (length actual) (map (detectType env) actual)
             (map (detectInsight env) actual) (m_alternatives S) 0
             (initial (length actual)) = Inr st
           \<and> verdict st = None
           \<and> cache_after (call env S cache actual)
               = remember cache (this_set S) (length actual)
                   (map (detectType env) actual) (map (detectInsight env) actual)
                   (cached_alt st))"
proof (cases "length actual > ARGUMENT_ARRAY_LIMIT")
  case True
  then show ?thesis by (simp add: call_def)
next
  case False
  obtain r cache' ev where loc: "locate env S cache actual = (r, cache', ev)"
    by (cases "locate env S cache actual")
  have "cache_after (call env S cache actual) = cache'"
    using False loc by (auto simp: call_def split: sum.splits prod.splits)
  with locate_cache [OF loc] show ?thesis by simp
qed

lemma call_keeps_cache_consistent:
  assumes "cache_consistent env S cache"
  shows "cache_consistent env S (cache_after (call env S cache actual))"
  using call_cache [of env S cache actual] assms
  by (auto simp: cache_consistent_def recall_def remember_def split: if_splits)

lemma call_on_other_set_keeps_cache_consistent:
  assumes "cache_consistent env S cache" and "this_set S' \<noteq> this_set S"
  shows "cache_consistent env S (cache_after (call env S' cache actual))"
  using call_cache [of env S' cache actual] assms
  by (auto simp: cache_consistent_def recall_def remember_def split: if_splits)

subsection \<open>No assertion of the source fails\<close>

text \<open>
  The \<open>assert\<close> of \<open>compareAlternatives\<close> and the one of \<open>convertSequence\<close> hold
  wherever \<open>call\<close> reaches them.
\<close>

lemma examine_no_assertion_failure:
  assumes "champion_ok env n ts is seen st"
  shows "examine env n ts is alt index st \<noteq> Inl AssertionFailure"
proof (cases "length (signature alt) = n")
  case False
  then show ?thesis by (simp add: examine_skip)
next
  case arity: True
  show ?thesis
  proof (cases "bestSequenceRoute (bestSingleRoute env) ts is (signature alt)")
    case None
    with arity show ?thesis by (simp add: examine_no_route)
  next
    case (Some needed)
    note len = bestSequenceRoute_length [OF Some]
    from assms have "length (lightweight st) = n" by (simp add: champion_ok_def)
    with len arity have l: "length (lightweight st) = length needed" "length is = length needed"
      by simp_all
    from compare_by_weights [OF l] obtain v where
      "compareAlternatives (lightweight st) needed is = Inr v" by blast
    with arity Some show ?thesis
      by (cases v) (auto simp: examine_better examine_worse examine_tie split: option.splits)
  qed
qed

lemma tournament_no_assertion_failure:
  "champion_ok env n ts is seen st \<Longrightarrow> length seen = index \<Longrightarrow>
   tournament env n ts is alts index st \<noteq> Inl AssertionFailure"
proof (induction alts arbitrary: seen index st)
  case Nil
  then show ?case by simp
next
  case (Cons alt alts)
  show ?case
  proof (cases "examine env n ts is alt index st")
    case (Inl e)
    with examine_no_assertion_failure [OF Cons.prems(1), of alt index] show ?thesis by simp
  next
    case (Inr st1)
    from examine_champion_ok [OF Cons.prems Inr]
    have "champion_ok env n ts is (seen @ [alt]) st1" .
    from Cons.IH [OF this, of "Suc index"] Cons.prems(2) Inr show ?thesis by simp
  qed
qed

lemma call_no_assertion_failure:
  "outcome (call env S cache actual) \<noteq> Inl AssertionFailure"
proof
  assume fail: "outcome (call env S cache actual) = Inl AssertionFailure"
  let ?ts = "map (detectType env) actual" and ?is = "map (detectInsight env) actual"
  let ?n = "length actual"
  have le: "\<not> ?n > ARGUMENT_ARRAY_LIMIT"
    using fail by (auto simp: call_def split: if_splits)
  obtain r cache' ev where loc: "locate env S cache actual = (r, cache', ev)"
    by (cases "locate env S cache actual")
  have "r = Inl AssertionFailure"
  proof (cases r)
    case (Inl e)
    with fail le loc show ?thesis by (simp add: call_def)
  next
    case (Inr found)
    obtain m converted gc where found: "found = (m, converted, gc)" by (cases found)
    obtain result ev' gc' where inv: "invoke env m converted gc = (result, ev', gc')"
      by (cases "invoke env m converted gc")
    have "result \<noteq> Inl AssertionFailure"
      using inv by (auto simp: invoke_def applyEdgeConversions_def cleanUp_def
                         split: option.splits sum.splits prod.splits)
    with fail le loc Inr found inv show ?thesis by (simp add: call_def)
  qed
  with loc show False
  proof (cases "recall cache (this_set S) ?n ?ts ?is")
    case None
    have t: "tournament env ?n ?ts ?is (m_alternatives S) 0 (initial ?n) \<noteq> Inl AssertionFailure"
      by (rule tournament_no_assertion_failure [OF initial_champion_ok]) simp
    show False
    proof (cases "tournament env ?n ?ts ?is (m_alternatives S) 0 (initial ?n)")
      case (Inl e)
      with loc None t \<open>r = Inl AssertionFailure\<close> show False
        by (simp add: locate_def Let_def)
    next
      case (Inr st)
      from tournament_initial_ok [OF Inr] have "length (lightroutes st) = ?n"
        by (simp add: champion_ok_def)
      then have "convertSequence actual (lightroutes st) [] \<noteq> Inl AssertionFailure"
        by (auto simp: convertSequence_def dest: convert_loop_error)
      with loc None Inr \<open>r = Inl AssertionFailure\<close> show False
        by (auto simp: locate_def Let_def verdict_def split: option.splits sum.splits if_splits)
    qed
  next
    case (Some idx)
    show False
    proof (cases "bestSequenceRoute (bestSingleRoute env) ?ts ?is
                    (signature (m_alternatives S ! idx))")
      case None
      with loc Some \<open>r = Inl AssertionFailure\<close> show False
        by (auto simp: locate_def Let_def split: if_splits)
    next
      case needed: (Some needed)
      from bestSequenceRoute_length [OF needed] have "length actual = length needed" by simp
      from convertSequence_Some [OF this, of "[]"] obtain converted gc where
        "convertSequence actual (map Some needed) [] = Inr (converted, gc)" by blast
      with loc Some needed \<open>r = Inl AssertionFailure\<close> show False
        by (auto simp: locate_def Let_def split: if_splits)
    qed
  qed
qed

subsection \<open>The comparison of two alternatives\<close>

text \<open>
  C1. For a list of known weights, a list of suggested routes and a list of insights of
  the same length, \<open>compareAlternatives\<close> returns \<open>OL_BETTER\<close> when the length is zero.
  Otherwise, with \<open>worse\<close> standing for "at some position the known weight is strictly
  below the weight of the suggested route under the insight of the position" and \<open>better\<close>
  for "at some position the weight of the suggested route is strictly below the known
  weight", it returns \<open>OL_EQUIVALENT\<close> when neither holds, \<open>OL_BETTER\<close> when only \<open>better\<close>
  holds, \<open>OL_WORSE\<close> when only \<open>worse\<close> holds, and \<open>OL_AMBIGUOUS\<close> when both hold.
\<close>

theorem compareAlternatives_verdict:
  assumes "length known = length suggested" and "length is = length known"
  shows "compareAlternatives known suggested is =
     Inr (if known = [] then OL_BETTER
          else (let worse = (\<exists>p<length known. known ! p < totalWeight (suggested ! p) (is ! p));
                    better = (\<exists>p<length known. totalWeight (suggested ! p) (is ! p) < known ! p)
                in if \<not> worse \<and> \<not> better then OL_EQUIVALENT
                   else if better \<and> \<not> worse then OL_BETTER
                   else if worse \<and> \<not> better then OL_WORSE
                   else OL_AMBIGUOUS))"
  unfolding Let_def by (rule compareAlternatives_cases [OF assms refl refl])

theorem compareAlternatives_verdict_witness:
  "length [1, 5 :: enat]
     = length [\<lparr>totalWeight = \<lambda>_. 2 :: enat, applyRoute = \<lambda>v. (v, [])\<rparr>,
               \<lparr>totalWeight = \<lambda>_. 3, applyRoute = \<lambda>v. (v, [])\<rparr>]
   \<and> length [0, 0 :: int] = length [1, 5 :: enat]
   \<and> compareAlternatives [1, 5 :: enat]
        [\<lparr>totalWeight = \<lambda>_. 2, applyRoute = \<lambda>v. (v, [])\<rparr>,
         \<lparr>totalWeight = \<lambda>_. 3, applyRoute = \<lambda>v. (v, [])\<rparr>] [0, 0] = Inr OL_AMBIGUOUS"
  using compareAlternatives_verdict
    [of "[1, 5 :: enat]"
        "[\<lparr>totalWeight = \<lambda>_. 2, applyRoute = \<lambda>v. (v, [])\<rparr>,
          \<lparr>totalWeight = \<lambda>_. 3, applyRoute = \<lambda>v. (v, [])\<rparr>]" "[0, 0]"]
  by (simp add: ex_less_Suc)

subsection \<open>The limit on the number of arguments\<close>

text \<open>
  C4. A call with more than 12 actual arguments fails with
  \<open>ArgumentArrayLimitExceeded\<close>, and it does so with an empty trace: no type and no insight
  has been detected, the cache has not been asked, and the cache is as it was.
\<close>

theorem call_argument_limit:
  assumes "length actual > 12"
  shows "outcome (call env S cache actual) = Inl ArgumentArrayLimitExceeded
         \<and> trace (call env S cache actual) = []
         \<and> cache_after (call env S cache actual) = cache"
  using assms by (simp add: call_def ARGUMENT_ARRAY_LIMIT_def)

theorem call_argument_limit_witness:
  "length (replicate 13 (0::nat)) > 12
   \<and> outcome (call \<lparr>detectType = \<lambda>v. v, detectInsight = \<lambda>v. 0,
                    bestSingleRoute = \<lambda>t i f. (None :: enat ConversionRoute option),
                    getEdgeConversion = \<lambda>t. None\<rparr>
                   \<lparr>this_set = 1, m_alternatives = []\<rparr> Map.empty (replicate 13 0))
       = Inl ArgumentArrayLimitExceeded"
  using call_argument_limit
    [of "replicate 13 (0::nat)"
        "\<lparr>detectType = \<lambda>v. v, detectInsight = \<lambda>v. 0,
          bestSingleRoute = \<lambda>t i f. (None :: enat ConversionRoute option),
          getEdgeConversion = \<lambda>t. None\<rparr>"
        "\<lparr>this_set = 1, m_alternatives = []\<rparr>" Map.empty]
  by simp

subsection \<open>The resolution loop\<close>

text \<open>
  C2. When the alternative examined after the alternatives \<open>pre\<close> has the arity of the
  call, has routes \<open>needed\<close>, and compares \<open>OL_BETTER\<close> against the weights of the
  champion, the loop adopts it: it is the champion, \<open>cached_alt\<close> is its position, its
  routes are recorded, the ambiguity flag is cleared, and the stored weights are, position
  by position, the weights of its own routes under the insights of the call.
\<close>

theorem better_candidate_becomes_champion:
  assumes "tournament env n ts is pre 0 (initial n) = Inr st"
      and "length (signature alt) = n"
      and "bestSequenceRoute (bestSingleRoute env) ts is (signature alt) = Some needed"
      and "compareAlternatives (lightweight st) needed is = Inr OL_BETTER"
  shows "\<exists>st'. tournament env n ts is (pre @ [alt]) 0 (initial n) = Inr st'
           \<and> lightest st' = Some alt \<and> cached_alt st' = length pre
           \<and> lightroutes st' = map Some needed
           \<and> ambiguity_alert st' = False
           \<and> length (lightweight st') = n
           \<and> (\<forall>p<n. lightweight st' ! p = totalWeight (needed ! p) (is ! p))"
proof -
  note len = bestSequenceRoute_length [OF assms(3)]
  have ok: "champion_ok env n ts is pre st"
    using assms(1) by (rule tournament_initial_ok)
  then have "length (lightroutes st) = n" by (simp add: champion_ok_def)
  with assms len show ?thesis
    by (simp add: tournament_append examine_better rememberWeights_nth rememberWeights_length)
qed

theorem better_candidate_becomes_champion_witness:
  "\<exists>st'. tournament example_env 1 [1] [0] ([f_double] @ [f_int]) 0 (initial 1) = Inr st'
         \<and> lightest st' = Some f_int \<and> cached_alt st' = 1
         \<and> lightroutes st' = [Some exact_route] \<and> ambiguity_alert st' = False
         \<and> lightweight st' ! 0 = 0"
proof -
  have h1: "tournament example_env 1 [1] [0] [f_double] 0 (initial 1)
            = Inr \<lparr>ambiguity_alert = False, lightest = Some f_double, cached_alt = 0,
                   lightroutes = [Some promote_route], lightweight = [1],
                   queries = [BestSequenceRoute [2]]\<rparr>"
    by (simp add: example_env_def exact_route_def promote_route_def f_double_def f_int_def
          resolution_defs)
  have h2: "length (signature f_int) = 1"
    by (simp add: f_int_def)
  have h3: "bestSequenceRoute (bestSingleRoute example_env) [1] [0] (signature f_int)
            = Some [exact_route]"
    by (simp add: example_env_def exact_route_def promote_route_def f_double_def f_int_def)
  have h4: "compareAlternatives
              (lightweight \<lparr>ambiguity_alert = False, lightest = Some f_double, cached_alt = 0,
                   lightroutes = [Some promote_route], lightweight = [1],
                   queries = [BestSequenceRoute [2]]\<rparr>) [exact_route] [0] = Inr OL_BETTER"
    by (simp add: example_env_def exact_route_def promote_route_def f_double_def f_int_def
          resolution_defs)
  from better_candidate_becomes_champion [OF h1 h2 h3 h4] show ?thesis
    by (auto simp: exact_route_def)
qed

text \<open>
  C10. Suppose every route that the conversion table returns has a possible weight
  under the insight it was asked for. Whenever the loop, having examined the alternatives
  \<open>pre\<close>, compares the next alternative \<open>OL_EQUIVALENT\<close> or \<open>OL_AMBIGUOUS\<close>, a champion
  has been adopted among \<open>pre\<close>, so the handle that \<open>identicalAlternatives\<close> dereferences is
  not null and examining the alternative is not an invalid access.
\<close>

theorem champion_adopted_before_tie:
  assumes "routes_possible env"
      and "tournament env n ts is pre 0 (initial n) = Inr st"
      and "length (signature alt) = n"
      and "bestSequenceRoute (bestSingleRoute env) ts is (signature alt) = Some needed"
      and "compareAlternatives (lightweight st) needed is = Inr v"
      and "v = OL_EQUIVALENT \<or> v = OL_AMBIGUOUS"
  shows "(\<exists>champion\<in>set pre. lightest st = Some champion)
         \<and> examine env n ts is alt (length pre) st \<noteq> Inl InvalidAccess"
proof -
  note len = bestSequenceRoute_length [OF assms(4)]
  have ok: "champion_ok env n ts is pre st"
    using assms(2) by (rule tournament_initial_ok)
  have possible: "\<forall>p<n. isPossible (totalWeight (needed ! p) (is ! p))"
    using routes_possible_nth [OF assms(1,4)] assms(3) by simp
  have "lightest st \<noteq> None"
  proof
    assume "lightest st = None"
    with ok have "lightweight st = replicate n INFINITE"
      by (simp add: champion_ok_def)
    with compare_with_infinite [OF _ _ possible] len assms(3,5,6)
    show False by auto
  qed
  then obtain champion where c: "lightest st = Some champion" by auto
  with ok have "champion \<in> set pre"
    by (auto simp: champion_ok_def)
  with c assms(3-6) show ?thesis
    by (auto simp: examine_tie)
qed

theorem champion_adopted_before_tie_witness:
  "routes_possible plain_env
   \<and> (\<exists>champion\<in>set [f_double].
        lightest \<lparr>ambiguity_alert = False, lightest = Some f_double, cached_alt = 0,
                  lightroutes = [Some promote_route], lightweight = [1 :: enat],
                  queries = [BestSequenceRoute [2]]\<rparr> = Some champion)
   \<and> examine plain_env 1 [1] [0] f_float (length [f_double])
        \<lparr>ambiguity_alert = False, lightest = Some f_double, cached_alt = 0,
         lightroutes = [Some promote_route], lightweight = [1],
         queries = [BestSequenceRoute [2]]\<rparr> \<noteq> Inl InvalidAccess"
proof -
  have h0: "routes_possible plain_env"
    by (simp add: routes_possible_def plain_env_def example_env_def exact_route_def
          promote_route_def f_double_def f_float_def isPossible_def INFINITE_def
                  top_enat_def finite_weights)
  have h1: "tournament plain_env 1 [1] [0] [f_double] 0 (initial 1)
            = Inr \<lparr>ambiguity_alert = False, lightest = Some f_double, cached_alt = 0,
                   lightroutes = [Some promote_route], lightweight = [1],
                   queries = [BestSequenceRoute [2]]\<rparr>"
    by (simp add: plain_env_def example_env_def exact_route_def promote_route_def f_double_def
          f_float_def resolution_defs)
  have h2: "length (signature f_float) = 1"
    by (simp add: f_float_def)
  have h3: "bestSequenceRoute (bestSingleRoute plain_env) [1] [0] (signature f_float)
            = Some [promote_route]"
    by (simp add: plain_env_def example_env_def exact_route_def promote_route_def f_double_def
          f_float_def)
  have h4: "compareAlternatives
              (lightweight \<lparr>ambiguity_alert = False, lightest = Some f_double, cached_alt = 0,
                   lightroutes = [Some promote_route], lightweight = [1],
                   queries = [BestSequenceRoute [2]]\<rparr>) [promote_route] [0]
            = Inr OL_EQUIVALENT"
    by (simp add: example_env_def exact_route_def promote_route_def f_double_def f_float_def
          resolution_defs)
  from h0 champion_adopted_before_tie [OF h0 h1 h2 h3 h4] show ?thesis
    by simp
qed

subsection \<open>The garbage collection of a call\<close>

text \<open>
  C3. Whatever the outcome of a call (a result, an exception of the call itself or an
  exception of the native callable), the values that the garbage collection releases
  during the call are the transient values that the conversions handed to it during the
  call, in the same order and each as many times as it was handed over.
\<close>

theorem call_releases_garbage_once:
  "released (trace (call env S cache actual)) = trashed (trace (call env S cache actual))"
proof (cases "length actual > ARGUMENT_ARRAY_LIMIT")
  case True
  then show ?thesis by (simp add: call_def)
next
  case False
  obtain r cache' ev where loc: "locate env S cache actual = (r, cache', ev)"
    by (cases "locate env S cache actual")
  note le = locate_events [OF loc]
  show ?thesis
  proof (cases r)
    case (Inl e)
    with False loc le show ?thesis
      by (simp add: call_def released_append trashed_append events_of_detect)
  next
    case (Inr found)
    obtain m converted gc where found: "found = (m, converted, gc)" by (cases found)
    obtain result ev' gc' where inv: "invoke env m converted gc = (result, ev', gc')"
      by (cases "invoke env m converted gc")
    note ie = invoke_events [OF inv]
    from False loc le Inr found inv ie show ?thesis
      by (simp add: call_def released_append trashed_append events_of_detect
                    cleanUp_def events_of_SinkRelease)
  qed
qed

theorem call_releases_garbage_once_witness:
  "trashed (trace (call example_env \<lparr>this_set = 1, m_alternatives = [f_double]\<rparr> Map.empty [5]))
     = [1005]
   \<and> released (trace (call example_env \<lparr>this_set = 1, m_alternatives = [f_double]\<rparr> Map.empty [5]))
     = [1005]"
proof -
  have "trashed (trace (call example_env \<lparr>this_set = 1, m_alternatives = [f_double]\<rparr>
                          Map.empty [5])) = [1005]"
    by (simp add: example_env_def exact_route_def promote_route_def f_double_def resolution_defs
          call_defs)
  with call_releases_garbage_once
         [of example_env "\<lparr>this_set = 1, m_alternatives = [f_double]\<rparr>" Map.empty "[5]"]
  show ?thesis by simp
qed

subsection \<open>Calls on particular sets\<close>

text \<open>
  C7. On a set without alternatives the loop examines nothing and the call fails with
  \<open>OverloadingNoMatch\<close>, provided the cache holds no entry for the address of the set and
  the types and insights of the arguments (\<open>call_empty_set_cases\<close>). The cache is keyed by
  the address of the set, and the destructor of a set leaves its entries where they are; a
  set without alternatives can therefore find the entry of a set that was at its address
  before it. The call then takes the path of a cache hit and reads \<open>m_alternatives\<close> at
  the cached index, past the end of the empty vector, and no \<open>OverloadingNoMatch\<close> is
  thrown. In the example world: the set \<open>[f_int]\<close> at the address 1 is called with \<open>[5]\<close>
  and stores the index 0; the set without alternatives at the address 1, called with
  \<open>[5]\<close> on the cache that call left, ends in the invalid access, while on an empty cache
  it fails with \<open>OverloadingNoMatch\<close>.
\<close>

theorem call_empty_set_stale_entry:
  "outcome (call example_env \<lparr>this_set = 1, m_alternatives = [f_int]\<rparr> Map.empty [5]) = Inr 10
   \<and> recall (cache_after (call example_env \<lparr>this_set = 1, m_alternatives = [f_int]\<rparr>
                Map.empty [5]))
        1 1 [1] [0] = Some 0
   \<and> outcome (call example_env \<lparr>this_set = 1, m_alternatives = []\<rparr>
        (cache_after (call example_env \<lparr>this_set = 1, m_alternatives = [f_int]\<rparr> Map.empty [5]))
        [5]) = Inl InvalidAccess
   \<and> outcome (call example_env \<lparr>this_set = 1, m_alternatives = []\<rparr> Map.empty [5])
       = Inl OverloadingNoMatch"
  by (simp add: example_env_def exact_route_def f_int_def resolution_defs call_defs)

text \<open>
  C9. For a call without arguments on a set with two or more alternatives without
  parameters: the loop ends with the last registered of them as the champion, with the
  ambiguity flag clear and no exception to throw; each of them, when its turn comes, has
  (empty) routes and compares \<open>OL_BETTER\<close> against the weights of the champion; and the
  call does not fail with \<open>OverloadingAmbiguity\<close>, whatever the cache holds.
\<close>

theorem nullary_call_last_registered_wins:
  assumes "nullary = filter (\<lambda>a. signature a = []) (m_alternatives S)"
      and "2 \<le> length nullary"
  shows "(\<exists>st. tournament env 0 [] [] (m_alternatives S) 0 (initial 0) = Inr st
              \<and> lightest st = Some (last nullary) \<and> \<not> ambiguity_alert st
              \<and> verdict st = None)
         \<and> (\<forall>pre alt post. m_alternatives S = pre @ alt # post \<and> signature alt = [] \<longrightarrow>
               (\<exists>st. tournament env 0 [] [] pre 0 (initial 0) = Inr st
                     \<and> bestSequenceRoute (bestSingleRoute env) [] [] (signature alt) = Some []
                     \<and> compareAlternatives (lightweight st) [] [] = Inr OL_BETTER))
         \<and> outcome (call env S cache []) \<noteq> Inl OverloadingAmbiguity"
proof (intro conjI allI impI)
  from assms have ne: "filter (\<lambda>a. signature a = []) (m_alternatives S) \<noteq> []" by auto
  from tournament_nullary [of env "m_alternatives S"] obtain st where
    st: "tournament env 0 [] [] (m_alternatives S) 0 (initial 0) = Inr st"
        "lightweight st = []" "\<not> ambiguity_alert st"
        "lightest st = Some (last (filter (\<lambda>a. signature a = []) (m_alternatives S)))"
    using ne by auto
  then have v: "verdict st = None" by (simp add: verdict_def)
  from st v assms(1)
  show "\<exists>st. tournament env 0 [] [] (m_alternatives S) 0 (initial 0) = Inr st
              \<and> lightest st = Some (last nullary) \<and> \<not> ambiguity_alert st
              \<and> verdict st = None" by simp
  show "outcome (call env S cache []) \<noteq> Inl OverloadingAmbiguity"
  proof
    assume amb: "outcome (call env S cache []) = Inl OverloadingAmbiguity"
    obtain r cache' ev where loc: "locate env S cache [] = (r, cache', ev)"
      by (cases "locate env S cache []")
    have "r = Inl OverloadingAmbiguity"
    proof (cases r)
      case (Inl e)
      with amb loc show ?thesis by (simp add: call_def ARGUMENT_ARRAY_LIMIT_def)
    next
      case (Inr found)
      obtain m converted gc where found: "found = (m, converted, gc)" by (cases found)
      obtain result ev' gc' where inv: "invoke env m converted gc = (result, ev', gc')"
        by (cases "invoke env m converted gc")
      from amb loc Inr found inv invoke_events(4) [OF inv] show ?thesis
        by (simp add: call_def ARGUMENT_ARRAY_LIMIT_def)
    qed
    with loc locate_not_ambiguity [of env S cache "[]" cache' ev] st(1) v
    show False by simp
  qed
next
  fix pre alt post
  assume "m_alternatives S = pre @ alt # post \<and> signature alt = []"
  moreover from tournament_nullary [of env pre] obtain st where
    "tournament env 0 [] [] pre 0 (initial 0) = Inr st" "lightweight st = []" by blast
  ultimately show "\<exists>st. tournament env 0 [] [] pre 0 (initial 0) = Inr st
       \<and> bestSequenceRoute (bestSingleRoute env) [] [] (signature alt) = Some []
       \<and> compareAlternatives (lightweight st) [] [] = Inr OL_BETTER"
    by (simp add: compareAlternatives_nullary)
qed

theorem nullary_call_last_registered_wins_witness:
  "(\<exists>st. tournament example_env 0 [] [] [k_first, f_int, k_second] 0 (initial 0) = Inr st
         \<and> lightest st = Some k_second)
   \<and> outcome (call example_env \<lparr>this_set = 1, m_alternatives = [k_first, f_int, k_second]\<rparr>
                 Map.empty []) \<noteq> Inl OverloadingAmbiguity"
proof -
  have h1: "[k_first, k_second]
            = filter (\<lambda>a. signature a = [])
                (m_alternatives \<lparr>this_set = 1, m_alternatives = [k_first, f_int, k_second]\<rparr>)"
    by (simp add: k_first_def k_second_def f_int_def)
  have h2: "2 \<le> length [k_first, k_second]"
    by simp
  from nullary_call_last_registered_wins
         [OF h1 h2, of example_env Map.empty]
  show ?thesis by auto
qed

subsection \<open>The cache\<close>

text \<open>
  C6. If a call on a set succeeds, then the cache after the call holds, for the set and
  the detected types and insights of the arguments, the position \<open>idx\<close> of the alternative
  that the call invoked. A second call with the same arguments, on the cache the first one
  left, is a cache hit: after the detections it recalls \<open>idx\<close>, asks the conversion table
  for the routes of that one alternative and of no other, and converts the arguments with
  them: the native function receives, position by position, the value that the route of
  the position makes of the argument, and the transient values of the routes are what is
  handed to the garbage collection. It invokes the same alternative and leaves the cache as
  it found it.
\<close>

theorem second_call_is_cache_hit:
  assumes "outcome (call env S cache actual) = Inr v"
  shows "\<exists>idx needed converted gc rest.
           idx < length (m_alternatives S)
         \<and> invoked (trace (call env S cache actual)) = [m_alternatives S ! idx]
         \<and> recall (cache_after (call env S cache actual)) (this_set S) (length actual)
             (map (detectType env) actual) (map (detectInsight env) actual) = Some idx
         \<and> bestSequenceRoute (bestSingleRoute env) (map (detectType env) actual)
             (map (detectInsight env) actual) (signature (m_alternatives S ! idx)) = Some needed
         \<and> convertSequence actual (map Some needed) [] = Inr (converted, gc)
         \<and> converted = map (\<lambda>(a, r). fst (applyRoute r a)) (zip actual needed)
         \<and> gc = concat (map (\<lambda>(a, r). snd (applyRoute r a)) (zip actual needed))
         \<and> trace (call env S (cache_after (call env S cache actual)) actual)
             = detect_events actual
               @ [CacheRecall (Some idx), BestSequenceRoute (signature (m_alternatives S ! idx))]
               @ map Trash gc @ Invoke (m_alternatives S ! idx) converted # rest
         \<and> table_queries (trace (call env S (cache_after (call env S cache actual)) actual))
             = [signature (m_alternatives S ! idx)]
         \<and> invoked (trace (call env S (cache_after (call env S cache actual)) actual))
             = [m_alternatives S ! idx]
         \<and> cache_after (call env S (cache_after (call env S cache actual)) actual)
             = cache_after (call env S cache actual)"
proof -
  have main: "\<exists>idx needed converted gc rest.
               idx < length (m_alternatives S)
             \<and> invoked (trace (call env S cache actual)) = [m_alternatives S ! idx]
             \<and> recall (cache_after (call env S cache actual)) (this_set S) (length actual)
                 (map (detectType env) actual) (map (detectInsight env) actual) = Some idx
             \<and> bestSequenceRoute (bestSingleRoute env) (map (detectType env) actual)
                 (map (detectInsight env) actual) (signature (m_alternatives S ! idx)) = Some needed
             \<and> convertSequence actual (map Some needed) [] = Inr (converted, gc)
             \<and> trace (call env S (cache_after (call env S cache actual)) actual)
                 = detect_events actual
                   @ [CacheRecall (Some idx), BestSequenceRoute (signature (m_alternatives S ! idx))]
                   @ map Trash gc @ Invoke (m_alternatives S ! idx) converted # rest
             \<and> table_queries (trace (call env S (cache_after (call env S cache actual)) actual))
                 = [signature (m_alternatives S ! idx)]
             \<and> invoked (trace (call env S (cache_after (call env S cache actual)) actual))
                 = [m_alternatives S ! idx]
             \<and> cache_after (call env S (cache_after (call env S cache actual)) actual)
                 = cache_after (call env S cache actual)"
  proof -
    let ?ts = "map (detectType env) actual" and ?is = "map (detectInsight env) actual"
    let ?n = "length actual" and ?alts = "m_alternatives S"
    from call_success_cases [OF assms] have le: "?n \<le> 12" by blast
    \<comment> \<open>what a call through the cache looks like\<close>
    have hit: "\<exists>rest.
          trace (call env S c actual)
            = detect_events actual @ [CacheRecall (Some idx), BestSequenceRoute (signature (?alts ! idx))]
              @ map Trash gc @ Invoke (?alts ! idx) converted # rest
        \<and> table_queries (trace (call env S c actual)) = [signature (?alts ! idx)]
        \<and> invoked (trace (call env S c actual)) = [?alts ! idx]
        \<and> cache_after (call env S c actual) = c"
      if "recall c (this_set S) ?n ?ts ?is = Some idx" and "idx < length ?alts"
        and "bestSequenceRoute (bestSingleRoute env) ?ts ?is (signature (?alts ! idx)) = Some needed"
        and "convertSequence actual (map Some needed) [] = Inr (converted, gc)"
      for c idx needed converted gc
    proof -
      obtain result ev gc' where inv:
        "invoke env (Some (?alts ! idx)) converted gc = (result, ev, gc')"
        by (cases "invoke env (Some (?alts ! idx)) converted gc")
      from invoke_Some [OF inv] obtain rest where
        rest: "ev = Invoke (?alts ! idx) converted # rest" "invoked rest = []"
              "table_queries rest = []" by blast
      have "trace (call env S c actual)
            = detect_events actual @ [CacheRecall (Some idx), BestSequenceRoute (signature (?alts ! idx))]
              @ map Trash gc @ Invoke (?alts ! idx) converted # (rest @ map SinkRelease gc')"
        and "table_queries (trace (call env S c actual)) = [signature (?alts ! idx)]"
        and "invoked (trace (call env S c actual)) = [?alts ! idx]"
        and "cache_after (call env S c actual) = c"
        using rest
        by (simp_all add: call_hit [OF le that inv] events_of_detect events_of_Trash
                          events_of_SinkRelease invoked_append table_queries_append)
      then show ?thesis by blast
    qed
    from call_success_cases [OF assms] consider
      (cached) idx needed converted gc where
        "recall cache (this_set S) ?n ?ts ?is = Some idx" "idx < length ?alts"
        "bestSequenceRoute (bestSingleRoute env) ?ts ?is (signature (?alts ! idx)) = Some needed"
        "convertSequence actual (map Some needed) [] = Inr (converted, gc)"
    | (resolved) st converted gc where
        "recall cache (this_set S) ?n ?ts ?is = None"
        "tournament env ?n ?ts ?is ?alts 0 (initial ?n) = Inr st" "verdict st = None"
        "convertSequence actual (lightroutes st) [] = Inr (converted, gc)"
      by blast
    then show ?thesis
    proof cases
      case cached
      from hit [OF cached] obtain rest where h:
        "trace (call env S cache actual)
            = detect_events actual @ [CacheRecall (Some idx), BestSequenceRoute (signature (?alts ! idx))]
              @ map Trash gc @ Invoke (?alts ! idx) converted # rest"
        "table_queries (trace (call env S cache actual)) = [signature (?alts ! idx)]"
        "invoked (trace (call env S cache actual)) = [?alts ! idx]"
        "cache_after (call env S cache actual) = cache" by blast
      with cached show ?thesis by auto
    next
      case resolved
      from verdict_None_champion [OF resolved(3)] obtain c where c: "lightest st = Some c" by blast
      from champion_of_tournament [OF resolved(2) c] obtain needed where
        ch: "cached_alt st < length ?alts" "?alts ! cached_alt st = c"
            "bestSequenceRoute (bestSingleRoute env) ?ts ?is (signature c) = Some needed"
            "lightroutes st = map Some needed" by blast
      obtain result ev gc' where inv: "invoke env (lightest st) converted gc = (result, ev, gc')"
        by (cases "invoke env (lightest st) converted gc")
      from invoke_Some [OF inv [unfolded c]] obtain rest where
        rest: "ev = Invoke c converted # rest" "invoked rest = []" by blast
      note first = call_miss [OF le resolved inv]
      have trace_first: "invoked (trace (call env S cache actual)) = [c]"
        using rest tournament_queries_clean(3) [OF resolved(2)]
        by (simp add: first events_of_detect events_of_Trash events_of_SinkRelease invoked_append)
      have after: "cache_after (call env S cache actual)
                   = remember cache (this_set S) ?n ?ts ?is (cached_alt st)"
        by (simp add: first)
      have rec: "recall (cache_after (call env S cache actual)) (this_set S) ?n ?ts ?is
                 = Some (cached_alt st)"
        by (simp add: after recall_remember)
      have conv: "convertSequence actual (map Some needed) [] = Inr (converted, gc)"
        using resolved(4) ch(4) by simp
      have bsr: "bestSequenceRoute (bestSingleRoute env) ?ts ?is (signature (?alts ! cached_alt st))
                 = Some needed"
        using ch(2,3) by simp
      from hit [OF rec ch(1) bsr conv] trace_first rec ch(1,2) bsr conv
      show ?thesis by auto
    qed
  qed
  then obtain idx needed converted gc rest where
    f: "idx < length (m_alternatives S)"
       "invoked (trace (call env S cache actual)) = [m_alternatives S ! idx]"
       "recall (cache_after (call env S cache actual)) (this_set S) (length actual)
          (map (detectType env) actual) (map (detectInsight env) actual) = Some idx"
       "bestSequenceRoute (bestSingleRoute env) (map (detectType env) actual)
          (map (detectInsight env) actual) (signature (m_alternatives S ! idx)) = Some needed"
       "convertSequence actual (map Some needed) [] = Inr (converted, gc)"
       "trace (call env S (cache_after (call env S cache actual)) actual)
          = detect_events actual
            @ [CacheRecall (Some idx), BestSequenceRoute (signature (m_alternatives S ! idx))]
            @ map Trash gc @ Invoke (m_alternatives S ! idx) converted # rest"
       "table_queries (trace (call env S (cache_after (call env S cache actual)) actual))
          = [signature (m_alternatives S ! idx)]"
       "invoked (trace (call env S (cache_after (call env S cache actual)) actual))
          = [m_alternatives S ! idx]"
       "cache_after (call env S (cache_after (call env S cache actual)) actual)
          = cache_after (call env S cache actual)"
    by (elim exE conjE)
  from convertSequence_routes [OF f(5)]
  have p: "converted = map (\<lambda>(a, r). fst (applyRoute r a)) (zip actual needed)"
          "gc = concat (map (\<lambda>(a, r). snd (applyRoute r a)) (zip actual needed))"
    by simp_all
  show ?thesis
    by (intro exI conjI) (rule f p)+
qed

theorem second_call_is_cache_hit_witness:
  "outcome (call example_env \<lparr>this_set = 1, m_alternatives = [f_string, f_double]\<rparr> Map.empty [5])
     = Inr 21
   \<and> take 6 (trace (call example_env \<lparr>this_set = 1, m_alternatives = [f_string, f_double]\<rparr>
        (cache_after (call example_env \<lparr>this_set = 1, m_alternatives = [f_string, f_double]\<rparr>
                        Map.empty [5])) [5]))
     = [DetectType 5, DetectInsight 5, CacheRecall (Some 1), BestSequenceRoute [2],
        Trash 1005, Invoke f_double [1005]]
   \<and> invoked (trace (call example_env \<lparr>this_set = 1, m_alternatives = [f_string, f_double]\<rparr>
        (cache_after (call example_env \<lparr>this_set = 1, m_alternatives = [f_string, f_double]\<rparr>
                        Map.empty [5])) [5]))
     = [f_double]
   \<and> table_queries (trace (call example_env \<lparr>this_set = 1, m_alternatives = [f_string, f_double]\<rparr>
        (cache_after (call example_env \<lparr>this_set = 1, m_alternatives = [f_string, f_double]\<rparr>
                        Map.empty [5])) [5]))
     = [[2]]"
proof -
  let ?S = "\<lparr>this_set = 1, m_alternatives = [f_string, f_double]\<rparr>"
  let ?second = "call example_env ?S (cache_after (call example_env ?S Map.empty [5])) [5]"
  have h1: "outcome (call example_env ?S Map.empty [5]) = Inr 21"
    by (simp add: example_env_def exact_route_def promote_route_def f_string_def f_double_def
          resolution_defs call_defs)
  have stored: "recall (cache_after (call example_env ?S Map.empty [5])) (this_set ?S)
                  (length [5 :: nat]) (map (detectType example_env) [5])
                  (map (detectInsight example_env) [5]) = Some 1"
    by (simp add: example_env_def exact_route_def promote_route_def f_string_def f_double_def
          resolution_defs call_defs)
  have routes: "bestSequenceRoute (bestSingleRoute example_env) (map (detectType example_env) [5])
                  (map (detectInsight example_env) [5]) (signature f_double)
                = Some [promote_route]"
    by (simp add: example_env_def f_double_def)
  from second_call_is_cache_hit [OF h1] obtain idx needed converted gc rest where
    f: "recall (cache_after (call example_env ?S Map.empty [5])) (this_set ?S)
          (length [5 :: nat]) (map (detectType example_env) [5])
          (map (detectInsight example_env) [5]) = Some idx"
       "bestSequenceRoute (bestSingleRoute example_env) (map (detectType example_env) [5])
          (map (detectInsight example_env) [5]) (signature (m_alternatives ?S ! idx)) = Some needed"
       "converted = map (\<lambda>(a, r). fst (applyRoute r a)) (zip [5] needed)"
       "gc = concat (map (\<lambda>(a, r). snd (applyRoute r a)) (zip [5] needed))"
       "trace ?second
          = detect_events [5]
            @ [CacheRecall (Some idx), BestSequenceRoute (signature (m_alternatives ?S ! idx))]
            @ map Trash gc @ Invoke (m_alternatives ?S ! idx) converted # rest"
       "table_queries (trace ?second) = [signature (m_alternatives ?S ! idx)]"
       "invoked (trace ?second) = [m_alternatives ?S ! idx]"
    by (elim exE conjE)
  from f(1) stored have idx: "idx = 1" by simp
  from f(2) routes idx have needed: "needed = [promote_route]" by simp
  from f(3,4) needed have conv: "converted = [1005]" "gc = [1005]"
    by (simp_all add: promote_route_def)
  from f(5,6,7) idx conv h1 show ?thesis
    by (simp add: detect_events_def f_double_def)
qed

subsection \<open>Dominated and tied alternatives\<close>

text \<open>
  C8 (amended). Let \<open>A\<close> and \<open>B\<close> be two alternatives with routes for the actual
  arguments of a call (at most 12), where every weight of \<open>A\<close> is possible, some weight
  of \<open>B\<close> is possible, \<open>A\<close> is at no position heavier than \<open>B\<close> and at some position
  strictly lighter. Then the call invokes \<open>A\<close>, on the set where \<open>A\<close> was registered
  before \<open>B\<close> and on the set where \<open>B\<close> was registered before \<open>A\<close>, each with a cache
  consistent with it.
\<close>

theorem dominating_candidate_wins:
  fixes env :: "('w::{linorder,order_top}) Environment" and actual :: "scripting_element list"
  defines "ts \<equiv> map (detectType env) actual" and "is \<equiv> map (detectInsight env) actual"
  assumes "length actual \<le> 12"
      and "candidate_weights env ts is A = Some wA"
      and "candidate_weights env ts is B = Some wB"
      and "conversionPossible wA" and "\<exists>p<length actual. isPossible (wB ! p)"
      and "\<forall>p<length actual. wA ! p \<le> wB ! p" and "\<exists>p<length actual. wA ! p < wB ! p"
      and "m_alternatives S1 = [A, B]" and "m_alternatives S2 = [B, A]"
      and "cache_consistent env S1 cache1" and "cache_consistent env S2 cache2"
  shows "invoked (trace (call env S1 cache1 actual)) = [A]
         \<and> invoked (trace (call env S2 cache2 actual)) = [A]"
proof -
  let ?n = "length actual"
  have len: "length ts = ?n" by (simp add: ts_def)
  from candidate_weights_routes [OF assms(4)] have lenA: "length wA = ?n" by (auto simp: len)
  have possA: "\<forall>p<?n. wA ! p < INFINITE"
    using assms(6) lenA by (auto simp: conversionPossible_iff isPossible_def)
  have le_top: "\<forall>p<?n. w ! p \<le> lightweight (initial ?n :: 'w Selection) ! p" for w :: "'w list"
    by (simp add: initial_weight_nth INFINITE_def)
  have ltA: "\<exists>p<?n. wA ! p < lightweight (initial ?n :: 'w Selection) ! p"
    using assms(9) possA by (auto simp: initial_weight_nth)
  have ltB: "\<exists>p<?n. wB ! p < lightweight (initial ?n :: 'w Selection) ! p"
    using assms(7) by (auto simp: initial_weight_nth isPossible_def)
  \<comment> \<open>\<open>A\<close> registered first\<close>
  note a1 = examine_lighter [OF assms(4) len initial_lengths le_top ltA, of 0]
  let ?s1 = "(initial ?n)\<lparr>queries := queries (initial ?n :: 'w Selection) @ [BestSequenceRoute (signature A)],
                  lightest := Some A, cached_alt := 0,
                  lightroutes := map Some (the (bestSequenceRoute (bestSingleRoute env) ts is
                                                 (signature A))),
                  lightweight := wA, ambiguity_alert := False\<rparr>"
  have b1: "examine env ?n ts is B (Suc 0) ?s1
            = Inr (?s1\<lparr>queries := queries ?s1 @ [BestSequenceRoute (signature B)]\<rparr>)"
    (is "_ = Inr ?s2")
    using assms(8,9) lenA by (intro examine_heavier [OF assms(5) len]) simp_all
  have t1: "tournament env ?n ts is [A, B] 0 (initial ?n) = Inr ?s2"
    by (simp add: a1 b1)
  have v1: "verdict ?s2 = None"
    using assms(6) by (simp add: verdict_def)
  \<comment> \<open>\<open>B\<close> registered first\<close>
  note b2 = examine_lighter [OF assms(5) len initial_lengths le_top ltB, of 0]
  let ?u1 = "(initial ?n)\<lparr>queries := queries (initial ?n :: 'w Selection) @ [BestSequenceRoute (signature B)],
                  lightest := Some B, cached_alt := 0,
                  lightroutes := map Some (the (bestSequenceRoute (bestSingleRoute env) ts is
                                                 (signature B))),
                  lightweight := wB, ambiguity_alert := False\<rparr>"
  from candidate_weights_routes [OF assms(5)] have lenB: "length wB = ?n"
    "length (the (bestSequenceRoute (bestSingleRoute env) ts is (signature B))) = ?n"
    using len by auto
  have a2: "examine env ?n ts is A (Suc 0) ?u1
         = Inr (?u1\<lparr>queries := queries ?u1 @ [BestSequenceRoute (signature A)],
                  lightest := Some A, cached_alt := Suc 0,
                  lightroutes := map Some (the (bestSequenceRoute (bestSingleRoute env) ts is
                                                 (signature A))),
                  lightweight := wA, ambiguity_alert := False\<rparr>)" (is "_ = Inr ?u2")
    using assms(8,9) lenB by (intro examine_lighter [OF assms(4) len]) simp_all
  have t2: "tournament env ?n ts is [B, A] 0 (initial ?n) = Inr ?u2"
    by (simp add: b2 a2)
  have v2: "verdict ?u2 = None"
    using assms(6) by (simp add: verdict_def)
  from call_invokes_champion [OF assms(3,12), of ?s2 A] t1 v1 assms(10)
  have "invoked (trace (call env S1 cache1 actual)) = [A]"
    by (simp add: ts_def is_def)
  moreover from call_invokes_champion [OF assms(3,13), of ?u2 A] t2 v2 assms(11)
  have "invoked (trace (call env S2 cache2 actual)) = [A]"
    by (simp add: ts_def is_def)
  ultimately show ?thesis by simp
qed

theorem dominating_candidate_wins_witness:
  "invoked (trace (call example_env \<lparr>this_set = 1, m_alternatives = [f_int, f_double]\<rparr>
                     Map.empty [5])) = [f_int]
   \<and> invoked (trace (call example_env \<lparr>this_set = 2, m_alternatives = [f_double, f_int]\<rparr>
                     Map.empty [5])) = [f_int]"
proof -
  let ?ts = "map (detectType example_env) [5]" and ?is = "map (detectInsight example_env) [5]"
  have h1: "length [5 :: nat] \<le> 12" by simp
  have h2: "candidate_weights example_env ?ts ?is f_int = Some [0]"
    by (simp add: example_env_def exact_route_def promote_route_def f_int_def f_double_def
          candidate_weights_def resolution_defs)
  have h3: "candidate_weights example_env ?ts ?is f_double = Some [1]"
    by (simp add: example_env_def exact_route_def promote_route_def f_int_def f_double_def
          candidate_weights_def resolution_defs)
  have h4: "conversionPossible [0 :: enat]"
    by (simp add: resolution_defs)
  have h5: "\<exists>p<length [5 :: nat]. isPossible ([1 :: enat] ! p)"
    by (simp add: resolution_defs)
  have h6: "\<forall>p<length [5 :: nat]. [0 :: enat] ! p \<le> [1] ! p"
    by simp
  have h7: "\<exists>p<length [5 :: nat]. [0 :: enat] ! p < [1] ! p"
    by simp
  have h8: "m_alternatives \<lparr>this_set = 1, m_alternatives = [f_int, f_double]\<rparr> = [f_int, f_double]"
    and h9: "m_alternatives \<lparr>this_set = 2, m_alternatives = [f_double, f_int]\<rparr> = [f_double, f_int]"
    by simp_all
  have h10: "cache_consistent example_env \<lparr>this_set = 1, m_alternatives = [f_int, f_double]\<rparr>
               Map.empty"
    and h11: "cache_consistent example_env \<lparr>this_set = 2, m_alternatives = [f_double, f_int]\<rparr>
               Map.empty"
    by (simp_all add: cache_consistent_def recall_def)
  from dominating_candidate_wins [OF h1 h2 h3 h4 h5 h6 h7 h8 h9 h10 h11]
  show ?thesis .
qed

text \<open>
  C8 as it is stated fails where the lighter alternative has an impossible weight. In the
  example world, for the arguments \<open>[5, 100]\<close> (an Int and a List that does not hold
  integers), \<open>g_int_vector\<close> has the weights \<open>[0, \<infinity>]\<close> and \<open>g_double_vector\<close> the weights
  \<open>[1, \<infinity>]\<close>: the first is strictly lighter at the first position and no worse at the
  second. In either order of registration the call fails with \<open>OverloadingNoMatch\<close> and
  invokes nothing, because \<open>conversionPossible\<close> rejects the weights of the champion.
\<close>

theorem dominating_candidate_wins_counterexample:
  "candidate_weights example_env (map (detectType example_env) [5, 100])
     (map (detectInsight example_env) [5, 100]) g_int_vector = Some [0, \<infinity>]
   \<and> candidate_weights example_env (map (detectType example_env) [5, 100])
     (map (detectInsight example_env) [5, 100]) g_double_vector = Some [1, \<infinity>]
   \<and> (0 :: enat) < 1 \<and> (\<infinity> :: enat) \<le> \<infinity>
   \<and> outcome (call example_env \<lparr>this_set = 1, m_alternatives = [g_int_vector, g_double_vector]\<rparr>
                 Map.empty [5, 100]) = Inl OverloadingNoMatch
   \<and> invoked (trace (call example_env
                 \<lparr>this_set = 1, m_alternatives = [g_int_vector, g_double_vector]\<rparr>
                 Map.empty [5, 100])) = []
   \<and> outcome (call example_env \<lparr>this_set = 2, m_alternatives = [g_double_vector, g_int_vector]\<rparr>
                 Map.empty [5, 100]) = Inl OverloadingNoMatch
   \<and> invoked (trace (call example_env
                 \<lparr>this_set = 2, m_alternatives = [g_double_vector, g_int_vector]\<rparr>
                 Map.empty [5, 100])) = []"
  by (simp add: example_env_def exact_route_def promote_route_def vector_route_def
        g_int_vector_def g_double_vector_def candidate_weights_def resolution_defs call_defs)

text \<open>
  C5 (amended). Let a set hold two alternatives \<open>A\<close> and \<open>B\<close> that are not
  \<open>identicalAlternatives\<close>, both with routes for the actual arguments of a call (at most
  12) and with weights that compare \<open>OL_EQUIVALENT\<close>, and let every alternative of the set
  that has routes have a possible weight at some position. Then the call fails with
  \<open>OverloadingAmbiguity\<close> in every order of registration of these alternatives, each with a
  cache consistent with the set, if and only if the alternatives that none of the set
  dominates have only possible weights, and every alternative that one of the set
  dominates is dominated by two alternatives of the set that are not
  \<open>identicalAlternatives\<close>. A set of just \<open>A\<close> and \<open>B\<close> meets the two conditions when the
  tied weights are possible.
\<close>

theorem tied_candidates_are_ambiguous:
  fixes env :: "('w::{linorder,order_top}) Environment" and actual :: "scripting_element list"
  defines "ts \<equiv> map (detectType env) actual" and "is \<equiv> map (detectInsight env) actual"
  assumes "length actual \<le> 12"
      and "A \<in> set alts" and "B \<in> set alts"
      and "\<not> identicalAlternatives A B"
      and "candidate_weights env ts is A = Some w"
      and "bestSequenceRoute (bestSingleRoute env) ts is (signature B) = Some rB"
      and "compareAlternatives w rB is = Inr OL_EQUIVALENT"
      and "\<forall>C\<in>set alts. \<forall>wC. candidate_weights env ts is C = Some wC \<longrightarrow>
             (\<exists>p<length actual. isPossible (wC ! p))"
  shows "(\<forall>ys cache. mset ys = mset alts
                      \<and> cache_consistent env \<lparr>this_set = me, m_alternatives = ys\<rparr> cache \<longrightarrow>
            outcome (call env \<lparr>this_set = me, m_alternatives = ys\<rparr> cache actual)
              = Inl OverloadingAmbiguity)
         = ((\<forall>M\<in>set alts. \<forall>wM.
               candidate_weights env ts is M = Some wM
               \<and> (\<forall>Z\<in>set alts. \<not> dominates env ts is Z M)
               \<longrightarrow> conversionPossible wM)
            \<and> (\<forall>L\<in>set alts. (\<exists>Z\<in>set alts. dominates env ts is Z L) \<longrightarrow>
                 (\<exists>M1\<in>set alts. \<exists>M2\<in>set alts.
                    dominates env ts is M1 L \<and> dominates env ts is M2 L
                    \<and> \<not> identicalAlternatives M1 M2)))"
  (is "?always = (?possible \<and> ?twice)")
proof
  assume r: "?possible \<and> ?twice"
  then have p: ?possible and t: ?twice by simp_all
  show ?always
  proof (intro allI impI)
    fix ys cache
    assume h: "mset ys = mset alts
               \<and> cache_consistent env \<lparr>this_set = me, m_alternatives = ys\<rparr> cache"
    then have m: "mset ys = mset alts"
      and c: "cache_consistent env \<lparr>this_set = me, m_alternatives = ys\<rparr> cache" by simp_all
    from ambiguous_in_every_order
           [OF assms(3-6) assms(7-10) [unfolded ts_def is_def] p [unfolded ts_def is_def]
               t [unfolded ts_def is_def] m c]
    show "outcome (call env \<lparr>this_set = me, m_alternatives = ys\<rparr> cache actual)
            = Inl OverloadingAmbiguity" .
  qed
next
  assume a: ?always
  have len: "length ts = length actual" by (simp add: ts_def)
  from candidate_weights_length [OF assms(7)] len have "length w = length ts" by simp
  from equivalent_weights [OF assms(8) this assms(9)] this len
  have pos: "0 < length actual" by auto
  show "?possible \<and> ?twice"
  proof (rule ccontr)
    assume n: "\<not> (?possible \<and> ?twice)"
    with assms(10) have "\<not> ((\<forall>C\<in>set alts. \<forall>wC. candidate_weights env ts is C = Some wC \<longrightarrow>
                (\<exists>p<length actual. isPossible (wC ! p))) \<and> ?possible \<and> ?twice)" by blast
    from some_order_is_not_ambiguous [OF pos this [unfolded ts_def is_def], of me Map.empty]
    obtain ys where ys: "mset ys = mset alts"
      "outcome (call env \<lparr>this_set = me, m_alternatives = ys\<rparr> Map.empty actual)
         \<noteq> Inl OverloadingAmbiguity" by blast
    have "cache_consistent env \<lparr>this_set = me, m_alternatives = ys\<rparr> Map.empty"
      by (rule empty_cache_consistent)
    with a ys show False by blast
  qed
qed

theorem tied_candidates_are_ambiguous_witness:
  "outcome (call graded_env \<lparr>this_set = 1, m_alternatives = [r_4_4, r_3_3, r_2_4, s_3_3]\<rparr>
              Map.empty [5, 6]) = Inl OverloadingAmbiguity
   \<and> outcome (call graded_env \<lparr>this_set = 1, m_alternatives = [r_2_4, s_3_3, r_3_3, r_4_4]\<rparr>
              Map.empty [5, 6]) = Inl OverloadingAmbiguity"
proof -
  let ?alts = "[r_4_4, r_3_3, r_2_4, s_3_3]"
  let ?ts = "map (detectType graded_env) [5, 6]" and ?is = "map (detectInsight graded_env) [5, 6]"
  have h1: "length [5 :: nat, 6] \<le> 12" by simp
  have h2: "r_3_3 \<in> set ?alts" and h3: "s_3_3 \<in> set ?alts"
    by simp_all
  have h4: "\<not> identicalAlternatives r_3_3 s_3_3"
    by (simp add: r_3_3_def s_3_3_def identicalAlternatives_def)
  have h5: "candidate_weights graded_env ?ts ?is r_3_3 = Some [enat 3, enat 3]"
    by (simp add: graded_env_def graded_route_def r_3_3_def candidate_weights_def
          rememberWeights_def)
  have h6: "bestSequenceRoute (bestSingleRoute graded_env) ?ts ?is (signature s_3_3)
            = Some [graded_route 3, graded_route 3]"
    by (simp add: graded_env_def s_3_3_def)
  have h7: "compareAlternatives [enat 3, enat 3] [graded_route 3, graded_route 3] ?is
            = Inr OL_EQUIVALENT"
    by (simp add: graded_env_def graded_route_def compareAlternatives_def)
  have h8: "\<forall>C\<in>set ?alts. \<forall>wC.
              candidate_weights graded_env ?ts ?is C = Some wC \<longrightarrow>
                (\<exists>p<length [5 :: nat, 6]. isPossible (wC ! p))"
    by (auto simp: graded_env_def graded_route_def r_4_4_def r_3_3_def r_2_4_def s_3_3_def
          candidate_weights_def rememberWeights_def isPossible_def INFINITE_def top_enat_def)
  have possible: "\<forall>M\<in>set ?alts. \<forall>wM.
             candidate_weights graded_env ?ts ?is M = Some wM
             \<and> (\<forall>Z\<in>set ?alts. \<not> dominates graded_env ?ts ?is Z M)
             \<longrightarrow> conversionPossible wM"
    by (auto simp: graded_env_def graded_route_def r_4_4_def r_3_3_def r_2_4_def s_3_3_def
          candidate_weights_def rememberWeights_def isPossible_def INFINITE_def top_enat_def)
  have twice: "\<forall>L\<in>set ?alts. (\<exists>Z\<in>set ?alts. dominates graded_env ?ts ?is Z L) \<longrightarrow>
             (\<exists>M1\<in>set ?alts. \<exists>M2\<in>set ?alts.
                dominates graded_env ?ts ?is M1 L \<and> dominates graded_env ?ts ?is M2 L
                \<and> \<not> identicalAlternatives M1 M2)"
    by (simp add: graded_env_def graded_route_def r_4_4_def r_3_3_def r_2_4_def s_3_3_def
          candidate_weights_def rememberWeights_def dominates_def lighter_iff
          identicalAlternatives_def)
  have c1: "mset ?alts = mset ?alts
            \<and> cache_consistent graded_env \<lparr>this_set = 1, m_alternatives = ?alts\<rparr> Map.empty"
    by (simp add: cache_consistent_def recall_def)
  have c2: "mset [r_2_4, s_3_3, r_3_3, r_4_4] = mset ?alts
            \<and> cache_consistent graded_env
                 \<lparr>this_set = 1, m_alternatives = [r_2_4, s_3_3, r_3_3, r_4_4]\<rparr> Map.empty"
    by (simp add: cache_consistent_def recall_def)
  note every = iffD2 [OF tied_candidates_are_ambiguous [OF h1 h2 h3 h4 h5 h6 h7 h8, of 1],
                      OF conjI [OF possible twice]]
  from every [rule_format, OF c1] every [rule_format, OF c2] show ?thesis
    by (rule conjI)
qed

text \<open>
  C5 as it is stated fails in two ways. Where the tied alternatives have an impossible
  weight: in the example world, for the arguments \<open>[5, 100]\<close>, \<open>g_double_vector\<close> and
  \<open>g_float_vector\<close> are not identical and both have the weights \<open>[1, \<infinity>]\<close>, which compare
  \<open>OL_EQUIVALENT\<close>; in either order of registration the call fails with
  \<open>OverloadingNoMatch\<close>, because the test of \<open>conversionPossible\<close> comes before the test of
  the ambiguity flag. And where an alternative is adopted after the tie was seen: in the
  graded world \<open>r_3_3\<close> and \<open>s_3_3\<close> are not identical and tie at the weights \<open>[3, 3]\<close>,
  \<open>r_2_4\<close> dominates \<open>r_2_5\<close>, and neither of these two compares better or worse than the
  tied ones. Registered in the order \<open>r_2_5\<close>, \<open>r_3_3\<close>, \<open>s_3_3\<close>, \<open>r_2_4\<close>, the flag that
  the tied alternatives raise against the champion \<open>r_2_5\<close> is cleared when \<open>r_2_4\<close>
  replaces it, and the call invokes \<open>r_2_4\<close>; with \<open>r_2_4\<close> registered before the tied
  alternatives the call fails with \<open>OverloadingAmbiguity\<close>.
\<close>

theorem tied_candidates_are_ambiguous_counterexample:
  "candidate_weights example_env (map (detectType example_env) [5, 100])
     (map (detectInsight example_env) [5, 100]) g_double_vector = Some [1, \<infinity>]
   \<and> bestSequenceRoute (bestSingleRoute example_env) (map (detectType example_env) [5, 100])
       (map (detectInsight example_env) [5, 100]) (signature g_float_vector)
     = Some [promote_route, vector_route]
   \<and> compareAlternatives [1, \<infinity>] [promote_route, vector_route]
       (map (detectInsight example_env) [5, 100]) = Inr OL_EQUIVALENT
   \<and> \<not> identicalAlternatives g_double_vector g_float_vector
   \<and> outcome (call example_env
                 \<lparr>this_set = 1, m_alternatives = [g_double_vector, g_float_vector]\<rparr>
                 Map.empty [5, 100]) = Inl OverloadingNoMatch
   \<and> outcome (call example_env
                 \<lparr>this_set = 2, m_alternatives = [g_float_vector, g_double_vector]\<rparr>
                 Map.empty [5, 100]) = Inl OverloadingNoMatch
   \<and> candidate_weights graded_env (map (detectType graded_env) [5, 6])
       (map (detectInsight graded_env) [5, 6]) r_3_3 = Some [enat 3, enat 3]
   \<and> bestSequenceRoute (bestSingleRoute graded_env) (map (detectType graded_env) [5, 6])
       (map (detectInsight graded_env) [5, 6]) (signature s_3_3)
     = Some [graded_route 3, graded_route 3]
   \<and> compareAlternatives [enat 3, enat 3] [graded_route 3, graded_route 3]
       (map (detectInsight graded_env) [5, 6]) = Inr OL_EQUIVALENT
   \<and> \<not> identicalAlternatives r_3_3 s_3_3
   \<and> candidate_weights graded_env (map (detectType graded_env) [5, 6])
       (map (detectInsight graded_env) [5, 6]) r_2_5 = Some [enat 2, enat 5]
   \<and> candidate_weights graded_env (map (detectType graded_env) [5, 6])
       (map (detectInsight graded_env) [5, 6]) r_2_4 = Some [enat 2, enat 4]
   \<and> outcome (call graded_env
                 \<lparr>this_set = 3, m_alternatives = [r_2_5, r_3_3, s_3_3, r_2_4]\<rparr>
                 Map.empty [5, 6]) = Inr 24
   \<and> invoked (trace (call graded_env
                 \<lparr>this_set = 3, m_alternatives = [r_2_5, r_3_3, s_3_3, r_2_4]\<rparr>
                 Map.empty [5, 6])) = [r_2_4]
   \<and> outcome (call graded_env
                 \<lparr>this_set = 4, m_alternatives = [r_2_5, r_2_4, r_3_3, s_3_3]\<rparr>
                 Map.empty [5, 6]) = Inl OverloadingAmbiguity
   \<and> outcome (call graded_env
                 \<lparr>this_set = 5, m_alternatives = [r_3_3, s_3_3, r_2_5, r_2_4]\<rparr>
                 Map.empty [5, 6]) = Inl OverloadingAmbiguity"
proof -
  have impossible:
    "candidate_weights example_env (map (detectType example_env) [5, 100])
       (map (detectInsight example_env) [5, 100]) g_double_vector = Some [1, \<infinity>]
     \<and> bestSequenceRoute (bestSingleRoute example_env) (map (detectType example_env) [5, 100])
         (map (detectInsight example_env) [5, 100]) (signature g_float_vector)
       = Some [promote_route, vector_route]
     \<and> compareAlternatives [1, \<infinity>] [promote_route, vector_route]
         (map (detectInsight example_env) [5, 100]) = Inr OL_EQUIVALENT
     \<and> \<not> identicalAlternatives g_double_vector g_float_vector
     \<and> outcome (call example_env
                   \<lparr>this_set = 1, m_alternatives = [g_double_vector, g_float_vector]\<rparr>
                   Map.empty [5, 100]) = Inl OverloadingNoMatch
     \<and> outcome (call example_env
                   \<lparr>this_set = 2, m_alternatives = [g_float_vector, g_double_vector]\<rparr>
                   Map.empty [5, 100]) = Inl OverloadingNoMatch"
    by (simp add: example_env_def exact_route_def promote_route_def vector_route_def
          g_double_vector_def g_float_vector_def candidate_weights_def resolution_defs call_defs)
  have tied:
    "candidate_weights graded_env (map (detectType graded_env) [5, 6])
       (map (detectInsight graded_env) [5, 6]) r_3_3 = Some [enat 3, enat 3]
     \<and> bestSequenceRoute (bestSingleRoute graded_env) (map (detectType graded_env) [5, 6])
         (map (detectInsight graded_env) [5, 6]) (signature s_3_3)
       = Some [graded_route 3, graded_route 3]
     \<and> compareAlternatives [enat 3, enat 3] [graded_route 3, graded_route 3]
         (map (detectInsight graded_env) [5, 6]) = Inr OL_EQUIVALENT
     \<and> \<not> identicalAlternatives r_3_3 s_3_3
     \<and> candidate_weights graded_env (map (detectType graded_env) [5, 6])
         (map (detectInsight graded_env) [5, 6]) r_2_5 = Some [enat 2, enat 5]
     \<and> candidate_weights graded_env (map (detectType graded_env) [5, 6])
         (map (detectInsight graded_env) [5, 6]) r_2_4 = Some [enat 2, enat 4]"
    by (simp add: graded_env_def graded_route_def r_3_3_def s_3_3_def r_2_5_def r_2_4_def
          candidate_weights_def resolution_defs)
  have adopted_last:
    "outcome (call graded_env
                \<lparr>this_set = 3, m_alternatives = [r_2_5, r_3_3, s_3_3, r_2_4]\<rparr>
                Map.empty [5, 6]) = Inr 24
     \<and> invoked (trace (call graded_env
                \<lparr>this_set = 3, m_alternatives = [r_2_5, r_3_3, s_3_3, r_2_4]\<rparr>
                Map.empty [5, 6])) = [r_2_4]"
    by (simp add: graded_env_def graded_route_def r_3_3_def s_3_3_def r_2_5_def r_2_4_def
          resolution_defs call_defs)
  have adopted_before:
    "outcome (call graded_env
                \<lparr>this_set = 4, m_alternatives = [r_2_5, r_2_4, r_3_3, s_3_3]\<rparr>
                Map.empty [5, 6]) = Inl OverloadingAmbiguity
     \<and> outcome (call graded_env
                \<lparr>this_set = 5, m_alternatives = [r_3_3, s_3_3, r_2_5, r_2_4]\<rparr>
                Map.empty [5, 6]) = Inl OverloadingAmbiguity"
    by (simp add: graded_env_def graded_route_def r_3_3_def s_3_3_def r_2_5_def r_2_4_def
          resolution_defs call_defs)
  from impossible tied adopted_last adopted_before show ?thesis
    by (simp only: simp_thms)
qed

end
